theory Spec2Isabelle
  imports Main "HOL-Library.Word"
begin

section \<open>Dynamic data references of the xtypes layer (DynamicData.hpp)\<close>

text \<open>
  The header \<^verbatim>\<open>dds/core/xtypes/DynamicData.hpp\<close> defines three classes over one pair
  \<^verbatim>\<open>(type_, instance_)\<close> (the fields \<open>type'\<close> and \<open>instance'\<close> below): \<^verbatim>\<open>ReadableDynamicDataRef\<close>, \<^verbatim>\<open>WritableDynamicDataRef\<close> and
  \<^verbatim>\<open>DynamicData\<close>. Every operation of these classes delegates to the type descriptor
  (\<^verbatim>\<open>DynamicType\<close> and its subclasses), whose headers are not part of the sources at hand.
  The descriptor hierarchy is therefore modelled from the specification, and each such
  definition says so. The three classes are translated from the header itself.

  Memory is a store of objects addressed by byte addresses. An \<^verbatim>\<open>assert\<close> that fails is
  the outcome \<open>AssertionFailed\<close> (the process aborts); reading an object that is not there,
  or through the wrong type, is \<open>UndefinedBehavior\<close>.
\<close>

subsection \<open>Scalars, kinds and descriptors\<close>

datatype Arithmetic = BOOL | UINT8 | INT32 | INT64

text \<open>The template parameter \<open>T\<close> of \<^verbatim>\<open>PrimitiveOrString<T>\<close>: an arithmetic type or
  \<^verbatim>\<open>std::string\<close>.\<close>

datatype CType = Arith Arithmetic | StdString

datatype scalar =
    BoolV bool
  | UInt8V "8 word"
  | Int32V "32 word"
  | Int64V "64 word"
  | StringV string

fun ctype_of :: "scalar \<Rightarrow> CType" where
  "ctype_of (BoolV _) = Arith BOOL"
| "ctype_of (UInt8V _) = Arith UINT8"
| "ctype_of (Int32V _) = Arith INT32"
| "ctype_of (Int64V _) = Arith INT64"
| "ctype_of (StringV _) = StdString"

fun zero_of :: "Arithmetic \<Rightarrow> scalar" where
  "zero_of BOOL = BoolV False"
| "zero_of UINT8 = UInt8V 0"
| "zero_of INT32 = Int32V 0"
| "zero_of INT64 = Int64V 0"

fun sizeof_arith :: "Arithmetic \<Rightarrow> nat" where
  "sizeof_arith BOOL = 1"
| "sizeof_arith UINT8 = 1"
| "sizeof_arith INT32 = 4"
| "sizeof_arith INT64 = 8"

text \<open>The sizes of a \<^verbatim>\<open>std::string\<close> and of the header object of a sequence instance, as on
  a 64-bit platform. Only that scalars have a positive size is used below.\<close>

definition sizeof_string :: nat where
  "sizeof_string = 32"

definition sizeof_SequenceInstance :: nat where
  "sizeof_SequenceInstance = 32"

fun sizeof :: "CType \<Rightarrow> nat" where
  "sizeof (Arith a) = sizeof_arith a"
| "sizeof StdString = sizeof_string"

text \<open>Modelled from the spec: the enumeration \<^verbatim>\<open>TypeKind\<close> (declared in a header that is
  missing). The spec lists the kinds primitive, string, structure, sequence; the header
  compares kinds with \<^verbatim>\<open>STRING_TYPE\<close>, \<^verbatim>\<open>STRUCTURE_TYPE\<close> and \<^verbatim>\<open>SEQUENCE_TYPE\<close>.\<close>

datatype TypeKind =
    PRIMITIVE_TYPE Arithmetic
  | STRING_TYPE
  | SEQUENCE_TYPE
  | STRUCTURE_TYPE

text \<open>Modelled from the spec: the descriptor classes \<^verbatim>\<open>PrimitiveType<T>\<close>, \<^verbatim>\<open>StringType\<close>,
  \<^verbatim>\<open>SequenceType\<close> (content type and bound), \<^verbatim>\<open>StructType\<close> (name and members in
  declaration order) and \<^verbatim>\<open>StructMember\<close> (name, type, offset); their headers are missing.\<close>

datatype DynamicType =
    PrimitiveType Arithmetic
  | StringType
  | SequenceType DynamicType nat
  | StructType string "StructMember list"
and StructMember =
    StructMember (member_name: string) (member_type: DynamicType) (member_offset: nat)

type_synonym addr = nat

datatype error = AssertionFailed | UndefinedBehavior

text \<open>What one address holds: a scalar object, or the header of a sequence instance
  (the address of its element block, null after a move, and the number of elements).\<close>

datatype cell =
    Object scalar
  | SequenceInstance "addr option" nat

text \<open>The store: the objects alive, the blocks handed out by \<^verbatim>\<open>new[]\<close> and not yet
  released (base address and size), and the first address never handed out.\<close>

record heap =
  cells :: "addr \<Rightarrow> cell option"
  blocks :: "addr \<Rightarrow> nat option"
  brk :: addr

definition store :: "addr \<Rightarrow> cell \<Rightarrow> heap \<Rightarrow> heap" where
  "store p c h = h\<lparr>cells := (cells h)(p \<mapsto> c)\<rparr>"

definition erase :: "addr \<Rightarrow> heap \<Rightarrow> heap" where
  "erase p h = h\<lparr>cells := (cells h)(p := None)\<rparr>"

text \<open>\<^verbatim>\<open>new uint8_t[n]\<close>: a block no other block overlaps; a block of size zero still gets an
  address of its own. The allocator hands out addresses upwards from the break and never
  hands out an address twice.\<close>

definition new_array :: "nat \<Rightarrow> heap \<Rightarrow> addr \<times> heap" where
  "new_array n h =
     (brk h, h\<lparr>blocks := (blocks h)(brk h \<mapsto> n), brk := brk h + max n 1\<rparr>)"

text \<open>\<^verbatim>\<open>delete[] p\<close>: releasing an address that is not the base of a live block (a double
  free among them) is undefined behaviour; the objects of the block are gone.\<close>

definition delete_array :: "addr \<Rightarrow> heap \<Rightarrow> error + heap" where
  "delete_array p h =
     (case blocks h p of
        None \<Rightarrow> Inl UndefinedBehavior
      | Some n \<Rightarrow>
          Inr (h\<lparr>cells := (\<lambda>x. if p \<le> x \<and> x < p + n then None else cells h x),
                 blocks := (blocks h)(p := None)\<rparr>))"

subsection \<open>Loops that may fail\<close>

fun foldM :: "('a \<Rightarrow> 's \<Rightarrow> error + 's) \<Rightarrow> 'a list \<Rightarrow> 's \<Rightarrow> error + 's" where
  "foldM f [] s = Inr s"
| "foldM f (x # xs) s = (case f x s of Inl e \<Rightarrow> Inl e | Inr s' \<Rightarrow> foldM f xs s')"

text \<open>A conjunction over a list that stops at the first \<open>False\<close> and at the first error.\<close>

fun allM :: "('a \<Rightarrow> error + bool) \<Rightarrow> 'a list \<Rightarrow> error + bool" where
  "allM f [] = Inr True"
| "allM f (x # xs) =
     (case f x of Inl e \<Rightarrow> Inl e | Inr b \<Rightarrow> if b then allM f xs else Inr False)"

lemma foldM_cong [fundef_cong]:
  "xs = ys \<Longrightarrow> s = t \<Longrightarrow> (\<And>x s'. x \<in> set ys \<Longrightarrow> f x s' = g x s')
    \<Longrightarrow> foldM f xs s = foldM g ys t"
  by (induction ys arbitrary: xs s t) (auto split: sum.splits)

lemma allM_cong [fundef_cong]:
  "xs = ys \<Longrightarrow> (\<And>x. x \<in> set ys \<Longrightarrow> f x = g x) \<Longrightarrow> allM f xs = allM g ys"
  by (induction ys arbitrary: xs) (auto split: sum.splits)

subsection \<open>The type descriptor\<close>

text \<open>Modelled from the spec: \<^verbatim>\<open>DynamicType::kind\<close>, \<^verbatim>\<open>is_primitive_type\<close> and
  \<^verbatim>\<open>is_collection_type\<close> (section 6, kind queries).\<close>

fun kind :: "DynamicType \<Rightarrow> TypeKind" where
  "kind (PrimitiveType a) = PRIMITIVE_TYPE a"
| "kind StringType = STRING_TYPE"
| "kind (SequenceType t b) = SEQUENCE_TYPE"
| "kind (StructType n ms) = STRUCTURE_TYPE"

fun is_primitive_type :: "DynamicType \<Rightarrow> bool" where
  "is_primitive_type (PrimitiveType a) = True"
| "is_primitive_type _ = False"

fun is_collection_type :: "DynamicType \<Rightarrow> bool" where
  "is_collection_type (SequenceType t b) = True"
| "is_collection_type _ = False"

lemma member_type_size [termination_simp]:
  "m \<in> set ms \<Longrightarrow> size (member_type m) < Suc (size_list size ms)"
proof (induction ms)
  case Nil
  then show ?case by simp
next
  case (Cons a ms)
  show ?case
  proof (cases "m = a")
    case True
    then show ?thesis by (cases a) simp
  next
    case False
    with Cons show ?thesis by simp
  qed
qed

text \<open>Modelled from the spec: \<^verbatim>\<open>memory_size()\<close>, the bytes needed for one instance. A
  structure holds its members in place; a sequence holds a header and keeps its elements
  in a block of its own.\<close>

fun memory_size :: "DynamicType \<Rightarrow> nat" where
  "memory_size (PrimitiveType a) = sizeof_arith a"
| "memory_size StringType = sizeof_string"
| "memory_size (SequenceType t b) = sizeof_SequenceInstance"
| "memory_size (StructType n ms) = sum_list (map (\<lambda>m. memory_size (member_type m)) ms)"

text \<open>Modelled from the spec: \<^verbatim>\<open>construct_instance(addr)\<close>. A primitive starts as zero, a
  string as the empty string, a sequence as empty with a block for \<open>bound\<close> elements; a
  structure constructs its members in declaration order.\<close>

fun construct_instance :: "DynamicType \<Rightarrow> addr \<Rightarrow> heap \<Rightarrow> heap" where
  "construct_instance (PrimitiveType a) p h = store p (Object (zero_of a)) h"
| "construct_instance StringType p h = store p (Object (StringV [])) h"
| "construct_instance (SequenceType t b) p h =
     (case new_array (b * memory_size t) h of
        (blk, h') \<Rightarrow> store p (SequenceInstance (Some blk) 0) h')"
| "construct_instance (StructType n ms) p h =
     fold (\<lambda>m. construct_instance (member_type m) (p + member_offset m)) ms h"

text \<open>Modelled from the spec: \<^verbatim>\<open>destroy_instance(addr)\<close>. A primitive owns nothing; a
  string and a sequence end their object, the sequence after destroying its elements and
  releasing its block; a structure destroys its members.\<close>

fun destroy_instance :: "DynamicType \<Rightarrow> addr \<Rightarrow> heap \<Rightarrow> error + heap" where
  "destroy_instance (PrimitiveType a) p h = Inr h"
| "destroy_instance StringType p h =
     (case cells h p of
        Some (Object (StringV s)) \<Rightarrow> Inr (erase p h)
      | _ \<Rightarrow> Inl UndefinedBehavior)"
| "destroy_instance (SequenceType t b) p h =
     (case cells h p of
        Some (SequenceInstance None n) \<Rightarrow> Inr (erase p h)
      | Some (SequenceInstance (Some blk) n) \<Rightarrow>
          (case foldM (\<lambda>i. destroy_instance t (blk + i * memory_size t)) [0..<n] h of
             Inl e \<Rightarrow> Inl e
           | Inr h1 \<Rightarrow>
               (case delete_array blk h1 of
                  Inl e \<Rightarrow> Inl e
                | Inr h2 \<Rightarrow> Inr (erase p h2)))
      | _ \<Rightarrow> Inl UndefinedBehavior)"
| "destroy_instance (StructType n ms) p h =
     foldM (\<lambda>m. destroy_instance (member_type m) (p + member_offset m)) ms h"

text \<open>Modelled from the spec: \<^verbatim>\<open>copy_instance(dst, src)\<close>, a deep copy: a sequence gets a
  block of its own and copies of the elements; a structure copies member by member.\<close>

fun copy_instance :: "DynamicType \<Rightarrow> addr \<Rightarrow> addr \<Rightarrow> heap \<Rightarrow> error + heap" where
  "copy_instance (PrimitiveType a) dst src h =
     (case cells h src of
        Some (Object v) \<Rightarrow>
          if ctype_of v = Arith a then Inr (store dst (Object v) h)
          else Inl UndefinedBehavior
      | _ \<Rightarrow> Inl UndefinedBehavior)"
| "copy_instance StringType dst src h =
     (case cells h src of
        Some (Object (StringV s)) \<Rightarrow> Inr (store dst (Object (StringV s)) h)
      | _ \<Rightarrow> Inl UndefinedBehavior)"
| "copy_instance (SequenceType t b) dst src h =
     (case cells h src of
        Some (SequenceInstance sblk n) \<Rightarrow>
          (case new_array (b * memory_size t) h of
             (blk, h1) \<Rightarrow>
               (case sblk of
                  None \<Rightarrow> Inr (store dst (SequenceInstance (Some blk) 0) h1)
                | Some sb \<Rightarrow>
                    (case foldM (\<lambda>i. copy_instance t (blk + i * memory_size t)
                                                    (sb + i * memory_size t)) [0..<n] h1 of
                       Inl e \<Rightarrow> Inl e
                     | Inr h2 \<Rightarrow> Inr (store dst (SequenceInstance (Some blk) n) h2))))
      | _ \<Rightarrow> Inl UndefinedBehavior)"
| "copy_instance (StructType n ms) dst src h =
     foldM (\<lambda>m. copy_instance (member_type m) (dst + member_offset m)
                                               (src + member_offset m)) ms h"

text \<open>Modelled from the spec: \<^verbatim>\<open>move_instance(dst, src)\<close>. The logical content goes to
  the target and the source stays a constructed object: a moved-from string is empty, a
  moved-from sequence is empty and has given its block away.\<close>

fun move_instance :: "DynamicType \<Rightarrow> addr \<Rightarrow> addr \<Rightarrow> heap \<Rightarrow> error + heap" where
  "move_instance (PrimitiveType a) dst src h =
     (case cells h src of
        Some (Object v) \<Rightarrow>
          if ctype_of v = Arith a then Inr (store dst (Object v) h)
          else Inl UndefinedBehavior
      | _ \<Rightarrow> Inl UndefinedBehavior)"
| "move_instance StringType dst src h =
     (case cells h src of
        Some (Object (StringV s)) \<Rightarrow>
          Inr (store src (Object (StringV [])) (store dst (Object (StringV s)) h))
      | _ \<Rightarrow> Inl UndefinedBehavior)"
| "move_instance (SequenceType t b) dst src h =
     (case cells h src of
        Some (SequenceInstance sblk n) \<Rightarrow>
          Inr (store src (SequenceInstance None 0) (store dst (SequenceInstance sblk n) h))
      | _ \<Rightarrow> Inl UndefinedBehavior)"
| "move_instance (StructType n ms) dst src h =
     foldM (\<lambda>m. move_instance (member_type m) (dst + member_offset m)
                                               (src + member_offset m)) ms h"

text \<open>Modelled from the spec: \<^verbatim>\<open>compare_instance(a, b)\<close>, deep equality of two instances
  read through this descriptor.\<close>

fun compare_instance :: "DynamicType \<Rightarrow> addr \<Rightarrow> addr \<Rightarrow> heap \<Rightarrow> error + bool" where
  "compare_instance (PrimitiveType a) p q h =
     (case (cells h p, cells h q) of
        (Some (Object v), Some (Object w)) \<Rightarrow>
          if ctype_of v = Arith a \<and> ctype_of w = Arith a then Inr (v = w)
          else Inl UndefinedBehavior
      | _ \<Rightarrow> Inl UndefinedBehavior)"
| "compare_instance StringType p q h =
     (case (cells h p, cells h q) of
        (Some (Object (StringV s)), Some (Object (StringV s'))) \<Rightarrow> Inr (s = s')
      | _ \<Rightarrow> Inl UndefinedBehavior)"
| "compare_instance (SequenceType t b) p q h =
     (case (cells h p, cells h q) of
        (Some (SequenceInstance pb n), Some (SequenceInstance qb n')) \<Rightarrow>
          if n \<noteq> n' then Inr False
          else if n = 0 then Inr True
          else (case (pb, qb) of
                  (Some pblk, Some qblk) \<Rightarrow>
                    allM (\<lambda>i. compare_instance t (pblk + i * memory_size t)
                                                 (qblk + i * memory_size t) h) [0..<n]
                | _ \<Rightarrow> Inl UndefinedBehavior)
      | _ \<Rightarrow> Inl UndefinedBehavior)"
| "compare_instance (StructType n ms) p q h =
     allM (\<lambda>m. compare_instance (member_type m) (p + member_offset m)
                                                (q + member_offset m) h) ms"

text \<open>Modelled from the spec: the collection-only operations \<^verbatim>\<open>content_type()\<close>,
  \<^verbatim>\<open>get_instance_size(addr)\<close> and \<^verbatim>\<open>get_instance_at(addr, index)\<close>. Through a descriptor
  that is not a collection they are undefined.\<close>

fun content_type :: "DynamicType \<Rightarrow> DynamicType option" where
  "content_type (SequenceType t b) = Some t"
| "content_type _ = None"

fun get_instance_size :: "DynamicType \<Rightarrow> addr \<Rightarrow> heap \<Rightarrow> error + nat" where
  "get_instance_size (SequenceType t b) p h =
     (case cells h p of
        Some (SequenceInstance blk n) \<Rightarrow> Inr n
      | _ \<Rightarrow> Inl UndefinedBehavior)"
| "get_instance_size _ p h = Inl UndefinedBehavior"

fun get_instance_at :: "DynamicType \<Rightarrow> addr \<Rightarrow> nat \<Rightarrow> heap \<Rightarrow> error + addr" where
  "get_instance_at (SequenceType t b) p i h =
     (case cells h p of
        Some (SequenceInstance (Some blk) n) \<Rightarrow> Inr (blk + i * memory_size t)
      | _ \<Rightarrow> Inl UndefinedBehavior)"
| "get_instance_at _ p i h = Inl UndefinedBehavior"

text \<open>Modelled from the spec: \<^verbatim>\<open>push_instance(addr, value_addr) -> addr | failure\<close> of
  the sequence descriptor. The new element is a copy of the value, placed after the last
  element; a sequence that is full, or that has no block, reports failure (\<open>None\<close>, the
  null address) and changes nothing.\<close>

fun push_instance :: "DynamicType \<Rightarrow> addr \<Rightarrow> addr \<Rightarrow> heap \<Rightarrow> error + (addr option \<times> heap)" where
  "push_instance (SequenceType t b) p v h =
     (case cells h p of
        Some (SequenceInstance None n) \<Rightarrow> Inr (None, h)
      | Some (SequenceInstance (Some blk) n) \<Rightarrow>
          if n < b then
            (case copy_instance t (blk + n * memory_size t) v h of
               Inl e \<Rightarrow> Inl e
             | Inr h1 \<Rightarrow>
                 Inr (Some (blk + n * memory_size t),
                      store p (SequenceInstance (Some blk) (Suc n)) h1))
          else Inr (None, h)
      | _ \<Rightarrow> Inl UndefinedBehavior)"
| "push_instance _ p v h = Inl UndefinedBehavior"

text \<open>Modelled from the spec: the structure-only operations \<^verbatim>\<open>has_member(name)\<close> and
  \<^verbatim>\<open>member(name)\<close>.\<close>

fun has_member :: "DynamicType \<Rightarrow> string \<Rightarrow> bool" where
  "has_member (StructType n ms) name = list_ex (\<lambda>m. member_name m = name) ms"
| "has_member _ name = False"

fun member :: "DynamicType \<Rightarrow> string \<Rightarrow> StructMember option" where
  "member (StructType n ms) name = find (\<lambda>m. member_name m = name) ms"
| "member _ name = None"

subsection \<open>Traversal nodes\<close>

text \<open>Modelled from the spec: \<^verbatim>\<open>Instanceable::InstanceNode\<close> and its \<^verbatim>\<open>Access\<close> (section 3,
  Traversal Node): the node's type and instance, its parent, its depth, and the index or
  the structure member by which it was reached. The header reads the fields \<^verbatim>\<open>parent\<close>,
  \<^verbatim>\<open>type\<close>, \<^verbatim>\<open>instance\<close>, \<^verbatim>\<open>deep\<close>, \<^verbatim>\<open>access.index\<close> and \<^verbatim>\<open>access.struct_member\<close>.\<close>

datatype Access = Access (index: nat) (struct_member: "StructMember option")

datatype InstanceNode =
  InstanceNode (parent: "InstanceNode option") (node_type: DynamicType)
    (node_instance: addr) (deep: nat) (access: Access)

definition root_node :: "DynamicType \<Rightarrow> addr \<Rightarrow> InstanceNode" where
  "root_node t p = InstanceNode None t p 0 (Access 0 None)"

definition member_node :: "InstanceNode \<Rightarrow> StructMember \<Rightarrow> InstanceNode" where
  "member_node n m =
     InstanceNode (Some n) (member_type m) (node_instance n + member_offset m)
       (Suc (deep n)) (Access 0 (Some m))"

definition element_node :: "InstanceNode \<Rightarrow> DynamicType \<Rightarrow> addr \<Rightarrow> nat \<Rightarrow> InstanceNode" where
  "element_node n t p i = InstanceNode (Some n) t p (Suc (deep n)) (Access i None)"

text \<open>Modelled from the spec: the traversal driver \<^verbatim>\<open>for_each_instance(root_node, visitor)\<close>
  (section 6): the visitor is called once per node, the node before its children,
  structure members in declaration order, collection elements in index order. The
  visitor's effect is a state \<open>'s\<close> that it updates at each call.\<close>

fun for_each_instance ::
  "DynamicType \<Rightarrow> InstanceNode \<Rightarrow> (InstanceNode \<Rightarrow> 's \<Rightarrow> 's) \<Rightarrow> heap \<Rightarrow> 's \<Rightarrow> error + 's" where
  "for_each_instance (PrimitiveType a) node visitor h s = Inr (visitor node s)"
| "for_each_instance StringType node visitor h s = Inr (visitor node s)"
| "for_each_instance (SequenceType t b) node visitor h s =
     (case cells h (node_instance node) of
        Some (SequenceInstance None n) \<Rightarrow> Inr (visitor node s)
      | Some (SequenceInstance (Some blk) n) \<Rightarrow>
          foldM (\<lambda>i. for_each_instance t
                       (element_node node t (blk + i * memory_size t) i) visitor h)
            [0..<n] (visitor node s)
      | _ \<Rightarrow> Inl UndefinedBehavior)"
| "for_each_instance (StructType nm ms) node visitor h s =
     foldM (\<lambda>m. for_each_instance (member_type m) (member_node node m) visitor h)
       ms (visitor node s)"

subsection \<open>ReadableDynamicDataRef\<close>

record ReadableDynamicDataRef =
  type' :: DynamicType
  instance' :: addr

text \<open>\<^verbatim>\<open>WritableDynamicDataRef\<close> and \<^verbatim>\<open>DynamicData\<close> derive from the read view and add no
  field.\<close>

type_synonym WritableDynamicDataRef = ReadableDynamicDataRef
type_synonym DynamicData = ReadableDynamicDataRef

definition op_eq :: "ReadableDynamicDataRef \<Rightarrow> ReadableDynamicDataRef \<Rightarrow> heap \<Rightarrow> error + bool" where
  "op_eq this other h = compare_instance (type' this) (instance' this) (instance' other) h"

definition op_ne :: "ReadableDynamicDataRef \<Rightarrow> ReadableDynamicDataRef \<Rightarrow> heap \<Rightarrow> error + bool" where
  "op_ne this other h = map_sum id Not (op_eq this other h)"

definition instance_id :: "ReadableDynamicDataRef \<Rightarrow> nat" where
  "instance_id this = instance' this"

text \<open>\<^verbatim>\<open>value<T>()\<close>: the assertion on the kind, then the object at the instance read as a
  \<open>T\<close>.\<close>

definition "value" :: "CType \<Rightarrow> ReadableDynamicDataRef \<Rightarrow> heap \<Rightarrow> error + scalar" where
  "value T this h =
     (if \<not> (is_primitive_type (type' this) \<or> kind (type' this) = STRING_TYPE)
      then Inl AssertionFailed
      else (case cells h (instance' this) of
              Some (Object v) \<Rightarrow> if ctype_of v = T then Inr v else Inl UndefinedBehavior
            | _ \<Rightarrow> Inl UndefinedBehavior))"

definition string_get :: "ReadableDynamicDataRef \<Rightarrow> heap \<Rightarrow> error + string" where
  "string_get this h =
     (if kind (type' this) \<noteq> STRING_TYPE then Inl AssertionFailed
      else (case cells h (instance' this) of
              Some (Object (StringV s)) \<Rightarrow> Inr s
            | _ \<Rightarrow> Inl UndefinedBehavior))"

text \<open>\<^verbatim>\<open>operator[](const std::string&)\<close>.\<close>

definition op_member :: "ReadableDynamicDataRef \<Rightarrow> string \<Rightarrow> error + ReadableDynamicDataRef" where
  "op_member this name =
     (if kind (type' this) \<noteq> STRUCTURE_TYPE then Inl AssertionFailed
      else if \<not> has_member (type' this) name then Inl AssertionFailed
      else (case member (type' this) name of
              None \<Rightarrow> Inl UndefinedBehavior
            | Some m \<Rightarrow>
                Inr \<lparr>type' = member_type m, instance' = instance' this + member_offset m\<rparr>))"

text \<open>\<^verbatim>\<open>size()\<close>.\<close>

definition size_of :: "ReadableDynamicDataRef \<Rightarrow> heap \<Rightarrow> error + nat" where
  "size_of this h =
     (if \<not> is_collection_type (type' this) then Inl AssertionFailed
      else get_instance_size (type' this) (instance' this) h)"

text \<open>\<^verbatim>\<open>operator[](size_t)\<close>: the assertion evaluates \<^verbatim>\<open>size()\<close> only for a collection.\<close>

definition op_index :: "ReadableDynamicDataRef \<Rightarrow> nat \<Rightarrow> heap \<Rightarrow> error + ReadableDynamicDataRef" where
  "op_index this i h =
     (if \<not> is_collection_type (type' this) then Inl AssertionFailed
      else (case size_of this h of
              Inl e \<Rightarrow> Inl e
            | Inr n \<Rightarrow>
                if \<not> i < n then Inl AssertionFailed
                else (case content_type (type' this) of
                        None \<Rightarrow> Inl UndefinedBehavior
                      | Some t \<Rightarrow>
                          (case get_instance_at (type' this) (instance' this) i h of
                             Inl e \<Rightarrow> Inl e
                           | Inr p \<Rightarrow> Inr \<lparr>type' = t, instance' = p\<rparr>))))"

text \<open>Reading \<open>n\<close> objects of type \<open>T\<close> that lie one after the other from \<open>location\<close> on, as
  the constructor \<^verbatim>\<open>std::vector<T>(location, location + size)\<close> does.\<close>

fun read_range :: "CType \<Rightarrow> addr \<Rightarrow> nat \<Rightarrow> heap \<Rightarrow> error + scalar list" where
  "read_range T location 0 h = Inr []"
| "read_range T location (Suc n) h =
     (case cells h location of
        Some (Object v) \<Rightarrow>
          if ctype_of v = T then
            (case read_range T (location + sizeof T) n h of
               Inl e \<Rightarrow> Inl e
             | Inr vs \<Rightarrow> Inr (v # vs))
          else Inl UndefinedBehavior
      | _ \<Rightarrow> Inl UndefinedBehavior)"

text \<open>\<^verbatim>\<open>as_vector<T>()\<close>: two assertions, the second one on \<^verbatim>\<open>type_.is_primitive_type()\<close>
  or the content type's kind being \<^verbatim>\<open>STRING_TYPE\<close>; then the elements from index 0.\<close>

definition as_vector :: "CType \<Rightarrow> ReadableDynamicDataRef \<Rightarrow> heap \<Rightarrow> error + scalar list" where
  "as_vector T this h =
     (if \<not> is_collection_type (type' this) then Inl AssertionFailed
      else if \<not> (is_primitive_type (type' this)
                 \<or> map_option kind (content_type (type' this)) = Some STRING_TYPE)
      then Inl AssertionFailed
      else (case get_instance_at (type' this) (instance' this) 0 h of
              Inl e \<Rightarrow> Inl e
            | Inr location \<Rightarrow>
                (case get_instance_size (type' this) (instance' this) h of
                   Inl e \<Rightarrow> Inl e
                 | Inr n \<Rightarrow> read_range T location n h)))"

text \<open>\<^verbatim>\<open>ReadableNode\<close> wraps an instance node; \<^verbatim>\<open>for_each\<close> builds the root node from the
  view and hands every node of the walk to the visitor.\<close>

definition has_parent :: "InstanceNode \<Rightarrow> bool" where
  "has_parent n = (parent n \<noteq> None)"

definition data :: "InstanceNode \<Rightarrow> ReadableDynamicDataRef" where
  "data n = \<lparr>type' = node_type n, instance' = node_instance n\<rparr>"

definition for_each ::
  "ReadableDynamicDataRef \<Rightarrow> (InstanceNode \<Rightarrow> 's \<Rightarrow> 's) \<Rightarrow> heap \<Rightarrow> 's \<Rightarrow> error + 's" where
  "for_each this visitor h s =
     for_each_instance (type' this) (root_node (type' this) (instance' this)) visitor h s"

subsection \<open>WritableDynamicDataRef\<close>

text \<open>\<^verbatim>\<open>operator=\<close>: destroy the target's content, then copy from the other view's instance
  through the target's descriptor.\<close>

definition assign ::
  "WritableDynamicDataRef \<Rightarrow> WritableDynamicDataRef \<Rightarrow> heap
    \<Rightarrow> error + (WritableDynamicDataRef \<times> heap)" where
  "assign this other h =
     (case destroy_instance (type' this) (instance' this) h of
        Inl e \<Rightarrow> Inl e
      | Inr h1 \<Rightarrow>
          (case copy_instance (type' this) (instance' this) (instance' other) h1 of
             Inl e \<Rightarrow> Inl e
           | Inr h2 \<Rightarrow> Inr (this, h2)))"

text \<open>\<^verbatim>\<open>value(const T& t)\<close>: the argument is a reference, here the address \<open>t\<close> of the
  caller's object.\<close>

definition value_set :: "WritableDynamicDataRef \<Rightarrow> addr \<Rightarrow> heap \<Rightarrow> error + heap" where
  "value_set this t h =
     (if \<not> (is_primitive_type (type' this) \<or> kind (type' this) = STRING_TYPE)
      then Inl AssertionFailed
      else (case destroy_instance (type' this) (instance' this) h of
              Inl e \<Rightarrow> Inl e
            | Inr h1 \<Rightarrow> copy_instance (type' this) (instance' this) t h1))"

definition string_set :: "WritableDynamicDataRef \<Rightarrow> addr \<Rightarrow> heap \<Rightarrow> error + heap" where
  "string_set this s h =
     (if kind (type' this) \<noteq> STRING_TYPE then Inl AssertionFailed
      else (case destroy_instance (type' this) (instance' this) h of
              Inl e \<Rightarrow> Inl e
            | Inr h1 \<Rightarrow> copy_instance (type' this) (instance' this) s h1))"

text \<open>\<^verbatim>\<open>push(const T& value)\<close>: the assertion on the kind, the descriptor's append, the
  assertion that the element's address is not null; the view itself is returned.\<close>

definition push ::
  "WritableDynamicDataRef \<Rightarrow> addr \<Rightarrow> heap \<Rightarrow> error + (WritableDynamicDataRef \<times> heap)" where
  "push this v h =
     (if kind (type' this) \<noteq> SEQUENCE_TYPE then Inl AssertionFailed
      else (case push_instance (type' this) (instance' this) v h of
              Inl e \<Rightarrow> Inl e
            | Inr (element, h1) \<Rightarrow>
                if element = None then Inl AssertionFailed else Inr (this, h1)))"

text \<open>\<^verbatim>\<open>push(const WritableDynamicDataRef& data)\<close>.\<close>

definition push_data ::
  "WritableDynamicDataRef \<Rightarrow> WritableDynamicDataRef \<Rightarrow> heap
    \<Rightarrow> error + (WritableDynamicDataRef \<times> heap)" where
  "push_data this d h =
     (if kind (type' this) \<noteq> SEQUENCE_TYPE then Inl AssertionFailed
      else (case push_instance (type' this) (instance' this) (instance' d) h of
              Inl e \<Rightarrow> Inl e
            | Inr (element, h1) \<Rightarrow>
                if element = None then Inl AssertionFailed else Inr (this, h1)))"

subsection \<open>DynamicData\<close>

text \<open>The constructor from a type, the copy and the move constructor each take a new
  array of \<^verbatim>\<open>memory_size()\<close> bytes; the destructor destroys the instance and releases the
  array.\<close>

definition DynamicData_new :: "DynamicType \<Rightarrow> heap \<Rightarrow> DynamicData \<times> heap" where
  "DynamicData_new t h =
     (case new_array (memory_size t) h of
        (p, h1) \<Rightarrow> (\<lparr>type' = t, instance' = p\<rparr>, construct_instance t p h1))"

definition DynamicData_copy :: "DynamicData \<Rightarrow> heap \<Rightarrow> error + (DynamicData \<times> heap)" where
  "DynamicData_copy other h =
     (case new_array (memory_size (type' other)) h of
        (p, h1) \<Rightarrow>
          (case copy_instance (type' other) p (instance' other) h1 of
             Inl e \<Rightarrow> Inl e
           | Inr h2 \<Rightarrow> Inr (\<lparr>type' = type' other, instance' = p\<rparr>, h2)))"

definition DynamicData_move :: "DynamicData \<Rightarrow> heap \<Rightarrow> error + (DynamicData \<times> heap)" where
  "DynamicData_move other h =
     (case new_array (memory_size (type' other)) h of
        (p, h1) \<Rightarrow>
          (case move_instance (type' other) p (instance' other) h1 of
             Inl e \<Rightarrow> Inl e
           | Inr h2 \<Rightarrow> Inr (\<lparr>type' = type' other, instance' = p\<rparr>, h2)))"

definition DynamicData_assign ::
  "DynamicData \<Rightarrow> DynamicData \<Rightarrow> heap \<Rightarrow> error + (DynamicData \<times> heap)" where
  "DynamicData_assign this other h =
     (case destroy_instance (type' this) (instance' this) h of
        Inl e \<Rightarrow> Inl e
      | Inr h1 \<Rightarrow>
          (case copy_instance (type' this) (instance' this) (instance' other) h1 of
             Inl e \<Rightarrow> Inl e
           | Inr h2 \<Rightarrow> Inr (this, h2)))"

definition DynamicData_destroy :: "DynamicData \<Rightarrow> heap \<Rightarrow> error + heap" where
  "DynamicData_destroy this h =
     (case destroy_instance (type' this) (instance' this) h of
        Inl e \<Rightarrow> Inl e
      | Inr h1 \<Rightarrow> delete_array (instance' this) h1)"

subsection \<open>Layouts and sample values\<close>

text \<open>Two members are apart when the byte ranges their declared offsets and sizes give
  them do not overlap.\<close>

definition apart :: "StructMember \<Rightarrow> StructMember \<Rightarrow> bool" where
  "apart m m' =
     (member_offset m + memory_size (member_type m) \<le> member_offset m'
      \<or> member_offset m' + memory_size (member_type m') \<le> member_offset m)"

fun members_apart :: "StructMember list \<Rightarrow> bool" where
  "members_apart [] = True"
| "members_apart (m # ms) = (list_all (apart m) ms \<and> members_apart ms)"

text \<open>The structure \<^verbatim>\<open>Point{x:int32, y:int32}\<close> of the spec's scenario, and a structure
  with the single member \<^verbatim>\<open>x:int32\<close>.\<close>

definition Point :: DynamicType where
  "Point = StructType ''Point''
     [StructMember ''x'' (PrimitiveType INT32) 0, StructMember ''y'' (PrimitiveType INT32) 4]"

definition Inner :: DynamicType where
  "Inner = StructType ''Inner'' [StructMember ''x'' (PrimitiveType INT32) 0]"

text \<open>A structure \<^verbatim>\<open>Outer{inner:Inner, y:int32}\<close>, and a store with two values: at 0 an
  \<^verbatim>\<open>Outer\<close> with \<^verbatim>\<open>inner.x = 1\<close> and \<^verbatim>\<open>y = 2\<close>, at 8 a \<^verbatim>\<open>Point\<close> with \<^verbatim>\<open>x = 1\<close> and \<^verbatim>\<open>y = 3\<close>.\<close>

definition Outer :: DynamicType where
  "Outer = StructType ''Outer''
     [StructMember ''inner'' Inner 0, StructMember ''y'' (PrimitiveType INT32) 4]"

definition asym_heap :: heap where
  "asym_heap =
     \<lparr>cells = [0 \<mapsto> Object (Int32V 1), 4 \<mapsto> Object (Int32V 2),
               8 \<mapsto> Object (Int32V 1), 12 \<mapsto> Object (Int32V 3)],
      blocks = [0 \<mapsto> 8, 8 \<mapsto> 8], brk = 16\<rparr>"

text \<open>A store that holds one \<^verbatim>\<open>int32_t\<close> of the caller, 7, at address 0; a sequence of
  at most one \<^verbatim>\<open>int32\<close> created in it; the store after the first push of the caller's 7.\<close>

definition caller_heap :: heap where
  "caller_heap = \<lparr>cells = [0 \<mapsto> Object (Int32V 7)], blocks = [0 \<mapsto> 4], brk = 4\<rparr>"

definition Int32Seq1 :: DynamicType where
  "Int32Seq1 = SequenceType (PrimitiveType INT32) 1"

definition seq1 :: DynamicData where
  "seq1 = fst (DynamicData_new Int32Seq1 caller_heap)"

definition seq1_empty :: heap where
  "seq1_empty = snd (DynamicData_new Int32Seq1 caller_heap)"

definition seq1_full :: heap where
  "seq1_full = (case push seq1 0 seq1_empty of Inr (v, h) \<Rightarrow> h | Inl e \<Rightarrow> seq1_empty)"

lemmas sample_defs = caller_heap_def Int32Seq1_def seq1_def seq1_empty_def seq1_full_def
  DynamicData_new_def new_array_def store_def push_def sizeof_SequenceInstance_def

text \<open>A scalar matches a descriptor when it is an object of the descriptor's C++ type.\<close>

fun matches :: "DynamicType \<Rightarrow> scalar \<Rightarrow> bool" where
  "matches (PrimitiveType a) x = (ctype_of x = Arith a)"
| "matches StringType x = (ctype_of x = StdString)"
| "matches _ x = False"

text \<open>The types whose destroy operation does nothing: primitives, and structures of
  such types.\<close>

fun trivially_destructible :: "DynamicType \<Rightarrow> bool" where
  "trivially_destructible (PrimitiveType a) = True"
| "trivially_destructible StringType = False"
| "trivially_destructible (SequenceType t b) = False"
| "trivially_destructible (StructType n ms) =
     list_all (\<lambda>m. trivially_destructible (member_type m)) ms"

text \<open>An instance of a type is constructed at an address when the objects the type's
  operations read are there: the scalar of a primitive or a string, the header of a
  sequence and its elements, the members of a structure.\<close>

fun constructed :: "DynamicType \<Rightarrow> heap \<Rightarrow> addr \<Rightarrow> bool" where
  "constructed (PrimitiveType a) h p =
     (case cells h p of Some (Object v) \<Rightarrow> ctype_of v = Arith a | _ \<Rightarrow> False)"
| "constructed StringType h p =
     (case cells h p of Some (Object (StringV s)) \<Rightarrow> True | _ \<Rightarrow> False)"
| "constructed (SequenceType t b) h p =
     (case cells h p of
        Some (SequenceInstance None n) \<Rightarrow> n = 0
      | Some (SequenceInstance (Some blk) n) \<Rightarrow>
          n \<le> b \<and> list_all (\<lambda>i. constructed t h (blk + i * memory_size t)) [0..<n]
      | _ \<Rightarrow> False)"
| "constructed (StructType n ms) h p =
     list_all (\<lambda>m. constructed (member_type m) h (p + member_offset m)) ms"

text \<open>The header of a sequence instance lies apart from the sequence's own element
  block.\<close>

definition header_apart :: "DynamicType \<Rightarrow> addr \<Rightarrow> heap \<Rightarrow> bool" where
  "header_apart T p h =
     (case (T, cells h p) of
        (SequenceType t b, Some (SequenceInstance (Some blk) n)) \<Rightarrow>
          \<not> (blk \<le> p \<and> p < blk + b * memory_size t)
      | _ \<Rightarrow> True)"

text \<open>A store that holds one \<^verbatim>\<open>std::string\<close> of the caller, \<^verbatim>\<open>"hi"\<close>, at address 0, and a
  string value created in it; a \<^verbatim>\<open>Point\<close> value created in the store of the caller's 7.\<close>

definition string_heap :: heap where
  "string_heap =
     \<lparr>cells = [0 \<mapsto> Object (StringV ''hi'')], blocks = [0 \<mapsto> 32], brk = 32\<rparr>"

definition str1 :: DynamicData where
  "str1 = fst (DynamicData_new StringType string_heap)"

definition str1_heap :: heap where
  "str1_heap = snd (DynamicData_new StringType string_heap)"

definition point1 :: DynamicData where
  "point1 = fst (DynamicData_new Point caller_heap)"

definition point1_heap :: heap where
  "point1_heap = snd (DynamicData_new Point caller_heap)"

lemmas sample_defs2 = string_heap_def str1_def str1_heap_def point1_def point1_heap_def
  Point_def sizeof_string_def





subsection \<open>Document order\<close>

fun mapM :: "('a \<Rightarrow> error + 'b) \<Rightarrow> 'a list \<Rightarrow> error + 'b list" where
  "mapM f [] = Inr []"
| "mapM f (x # xs) =
     (case f x of
        Inl e \<Rightarrow> Inl e
      | Inr y \<Rightarrow> (case mapM f xs of Inl e \<Rightarrow> Inl e | Inr ys \<Rightarrow> Inr (y # ys)))"

lemma mapM_cong [fundef_cong]:
  "xs = ys \<Longrightarrow> (\<And>x. x \<in> set ys \<Longrightarrow> f x = g x) \<Longrightarrow> mapM f xs = mapM g ys"
  by (induction ys arbitrary: xs) (auto split: sum.splits)

text \<open>The nodes of an instance in document order, in the spec's words (section 6): the
  node itself, then depth-first the structure members in declaration order or the
  collection elements in index order. The definition of the walk with a visitor is
  compared with this list.\<close>

fun document_order :: "DynamicType \<Rightarrow> InstanceNode \<Rightarrow> heap \<Rightarrow> error + InstanceNode list" where
  "document_order (PrimitiveType a) node h = Inr [node]"
| "document_order StringType node h = Inr [node]"
| "document_order (SequenceType t b) node h =
     (case cells h (node_instance node) of
        Some (SequenceInstance None n) \<Rightarrow> Inr [node]
      | Some (SequenceInstance (Some blk) n) \<Rightarrow>
          (case mapM (\<lambda>i. document_order t
                            (element_node node t (blk + i * memory_size t) i) h) [0..<n] of
             Inl e \<Rightarrow> Inl e
           | Inr nss \<Rightarrow> Inr (node # concat nss))
      | _ \<Rightarrow> Inl UndefinedBehavior)"
| "document_order (StructType nm ms) node h =
     (case mapM (\<lambda>m. document_order (member_type m) (member_node node m) h) ms of
        Inl e \<Rightarrow> Inl e
      | Inr nss \<Rightarrow> Inr (node # concat nss))"

text \<open>The sub-instances reachable from a root node: the root, the members of a reachable
  structure, the elements of a reachable sequence.\<close>

inductive sub_instance :: "heap \<Rightarrow> InstanceNode \<Rightarrow> InstanceNode \<Rightarrow> bool"
  for h :: heap and root :: InstanceNode where
  root: "sub_instance h root root"
| member: "sub_instance h root n \<Longrightarrow> node_type n = StructType nm ms \<Longrightarrow> m \<in> set ms
    \<Longrightarrow> sub_instance h root (member_node n m)"
| element: "sub_instance h root n \<Longrightarrow> node_type n = SequenceType t b
    \<Longrightarrow> cells h (node_instance n) = Some (SequenceInstance (Some blk) k) \<Longrightarrow> i < k
    \<Longrightarrow> sub_instance h root (element_node n t (blk + i * memory_size t) i)"

text \<open>No structure of the type lists a member twice.\<close>

fun distinct_members :: "DynamicType \<Rightarrow> bool" where
  "distinct_members (PrimitiveType a) = True"
| "distinct_members StringType = True"
| "distinct_members (SequenceType t b) = distinct_members t"
| "distinct_members (StructType nm ms) =
     (distinct ms \<and> list_all (\<lambda>m. distinct_members (member_type m)) ms)"

text \<open>A structure \<^verbatim>\<open>Track{id:int32, pts:sequence<int32, 2>}\<close> created in the store of the
  caller's 7, and the store after pushing the caller's 7 onto its member \<^verbatim>\<open>pts\<close>.\<close>

definition Track :: DynamicType where
  "Track = StructType ''Track''
     [StructMember ''id'' (PrimitiveType INT32) 0,
      StructMember ''pts'' (SequenceType (PrimitiveType INT32) 2) 4]"

definition track1 :: DynamicData where
  "track1 = fst (DynamicData_new Track caller_heap)"

definition track1_pts :: WritableDynamicDataRef where
  "track1_pts = (case op_member track1 ''pts'' of Inr v \<Rightarrow> v | Inl e \<Rightarrow> track1)"

definition track1_heap :: heap where
  "track1_heap =
     (case push track1_pts 0 (snd (DynamicData_new Track caller_heap)) of
        Inr (v, h) \<Rightarrow> h
      | Inl e \<Rightarrow> caller_heap)"

lemmas track_defs = Track_def track1_def track1_pts_def track1_heap_def op_member_def

subsection \<open>Content, footprint and ownership\<close>

text \<open>The logical content of an instance, read through its type: a scalar, the contents of
  the elements of a sequence, the contents of the members of a structure.\<close>

datatype content = Scalar scalar | Elements "content list" | Members "content list"

fun snapshot :: "DynamicType \<Rightarrow> heap \<Rightarrow> addr \<Rightarrow> content option" where
  "snapshot (PrimitiveType a) h p =
     (case cells h p of
        Some (Object v) \<Rightarrow> if ctype_of v = Arith a then Some (Scalar v) else None
      | _ \<Rightarrow> None)"
| "snapshot StringType h p =
     (case cells h p of
        Some (Object (StringV s)) \<Rightarrow> Some (Scalar (StringV s))
      | _ \<Rightarrow> None)"
| "snapshot (SequenceType t b) h p =
     (case cells h p of
        Some (SequenceInstance None n) \<Rightarrow> if n = 0 then Some (Elements []) else None
      | Some (SequenceInstance (Some blk) n) \<Rightarrow>
          map_option Elements
            (those (map (\<lambda>i. snapshot t h (blk + i * memory_size t)) [0..<n]))
      | _ \<Rightarrow> None)"
| "snapshot (StructType nm ms) h p =
     map_option Members
       (those (map (\<lambda>m. snapshot (member_type m) h (p + member_offset m)) ms))"

text \<open>The addresses of the objects an instance keeps in place (one per primitive, string
  and sequence header, through nested structures), and the addresses of the objects in the
  element blocks of its sequences.\<close>

fun leaves :: "DynamicType \<Rightarrow> addr \<Rightarrow> addr list" where
  "leaves (PrimitiveType a) p = [p]"
| "leaves StringType p = [p]"
| "leaves (SequenceType t b) p = [p]"
| "leaves (StructType nm ms) p =
     concat (map (\<lambda>m. leaves (member_type m) (p + member_offset m)) ms)"

fun elems :: "DynamicType \<Rightarrow> heap \<Rightarrow> addr \<Rightarrow> addr list" where
  "elems (PrimitiveType a) h p = []"
| "elems StringType h p = []"
| "elems (SequenceType t b) h p =
     (case cells h p of
        Some (SequenceInstance (Some blk) n) \<Rightarrow>
          concat (map (\<lambda>i. leaves t (blk + i * memory_size t)
                            @ elems t h (blk + i * memory_size t)) [0..<n])
      | _ \<Rightarrow> [])"
| "elems (StructType nm ms) h p =
     concat (map (\<lambda>m. elems (member_type m) h (p + member_offset m)) ms)"

text \<open>What holds of an owning value in a store: its buffer is a live block of the type's
  size below the break, its content can be read, no two of its objects share an address,
  its in-place objects lie in the buffer, and the elements of its sequences lie in
  allocated memory outside the buffer.\<close>

definition owns :: "DynamicData \<Rightarrow> heap \<Rightarrow> bool" where
  "owns a h =
     (blocks h (instance' a) = Some (memory_size (type' a))
      \<and> instance' a < brk h
      \<and> instance' a + memory_size (type' a) \<le> brk h
      \<and> snapshot (type' a) h (instance' a) \<noteq> None
      \<and> distinct (leaves (type' a) (instance' a))
      \<and> list_all (\<lambda>x. x < instance' a + memory_size (type' a))
           (leaves (type' a) (instance' a))
      \<and> list_all (\<lambda>x. x < brk h
                        \<and> \<not> (instance' a \<le> x \<and> x < instance' a + memory_size (type' a)))
           (elems (type' a) h (instance' a)))"

text \<open>Two stores agree below an address; in a store, the sequence headers from an address
  on keep their blocks from that address on; no object lies beyond the break.\<close>

definition agree_below :: "addr \<Rightarrow> heap \<Rightarrow> heap \<Rightarrow> bool" where
  "agree_below N h h' = (\<forall>p<N. cells h' p = cells h p)"

definition upper_closed :: "addr \<Rightarrow> heap \<Rightarrow> bool" where
  "upper_closed N h =
     (\<forall>p blk k. N \<le> p \<longrightarrow> cells h p = Some (SequenceInstance (Some blk) k) \<longrightarrow> N \<le> blk)"

definition kept :: "addr \<Rightarrow> heap \<Rightarrow> heap \<Rightarrow> bool" where
  "kept N h0 h = (agree_below N h0 h \<and> upper_closed N h \<and> N \<le> brk h)"

definition nothing_above :: "heap \<Rightarrow> bool" where
  "nothing_above h = (\<forall>p. brk h \<le> p \<longrightarrow> cells h p = None)"

text \<open>Write operations on views at addresses from \<open>N\<close> on.\<close>

inductive mutates :: "addr \<Rightarrow> heap \<Rightarrow> heap \<Rightarrow> bool" for N :: addr and h :: heap where
  unchanged: "mutates N h h"
| by_value: "mutates N h h1 \<Longrightarrow> N \<le> instance' w \<Longrightarrow> value_set w t h1 = Inr h2
    \<Longrightarrow> mutates N h h2"
| by_string: "mutates N h h1 \<Longrightarrow> N \<le> instance' w \<Longrightarrow> string_set w t h1 = Inr h2
    \<Longrightarrow> mutates N h h2"
| by_push: "mutates N h h1 \<Longrightarrow> N \<le> instance' w \<Longrightarrow> push w t h1 = Inr (w', h2)
    \<Longrightarrow> mutates N h h2"
| by_push_data: "mutates N h h1 \<Longrightarrow> N \<le> instance' w \<Longrightarrow> push_data w d h1 = Inr (w', h2)
    \<Longrightarrow> mutates N h h2"
| by_assign: "mutates N h h1 \<Longrightarrow> N \<le> instance' w \<Longrightarrow> assign w d h1 = Inr (w', h2)
    \<Longrightarrow> mutates N h h2"

text \<open>A copy of the \<^verbatim>\<open>Track\<close> value, and the store after pushing the caller's 7 onto the
  member \<^verbatim>\<open>pts\<close> of the copy.\<close>

definition track2 :: DynamicData where
  "track2 = (case DynamicData_copy track1 track1_heap of Inr (b, h) \<Rightarrow> b | Inl e \<Rightarrow> track1)"

definition track2_heap :: heap where
  "track2_heap =
     (case DynamicData_copy track1 track1_heap of Inr (b, h) \<Rightarrow> h | Inl e \<Rightarrow> track1_heap)"

definition track2_pts :: WritableDynamicDataRef where
  "track2_pts = (case op_member track2 ''pts'' of Inr v \<Rightarrow> v | Inl e \<Rightarrow> track2)"

definition track2_pushed :: heap where
  "track2_pushed =
     (case push track2_pts 0 track2_heap of Inr (v, h) \<Rightarrow> h | Inl e \<Rightarrow> track2_heap)"

subsection \<open>Moved-from values\<close>

text \<open>The state a move leaves at the source: primitives as they were, strings empty,
  sequences empty and without a block.\<close>

fun moved_from :: "DynamicType \<Rightarrow> heap \<Rightarrow> addr \<Rightarrow> bool" where
  "moved_from (PrimitiveType a) h p =
     (case cells h p of Some (Object v) \<Rightarrow> ctype_of v = Arith a | _ \<Rightarrow> False)"
| "moved_from StringType h p = (cells h p = Some (Object (StringV [])))"
| "moved_from (SequenceType t b) h p = (cells h p = Some (SequenceInstance None 0))"
| "moved_from (StructType nm ms) h p =
     list_all (\<lambda>m. moved_from (member_type m) h (p + member_offset m)) ms"

text \<open>When an instance can be moved from \<open>src\<close> to \<open>dst\<close>: the objects of the two places
  are all at different addresses, and no element of a sequence of the source lies at one
  of them. What a move has achieved: the target has the content \<open>c\<close> and the source's
  elements, the source is moved-from, and nothing else has changed.\<close>

definition movable :: "DynamicType \<Rightarrow> addr \<Rightarrow> addr \<Rightarrow> heap \<Rightarrow> bool" where
  "movable T dst src h =
     (distinct (leaves T src @ leaves T dst)
      \<and> set (elems T h src) \<inter> (set (leaves T src) \<union> set (leaves T dst)) = {})"

definition moved_ok :: "DynamicType \<Rightarrow> addr \<Rightarrow> addr \<Rightarrow> heap \<Rightarrow> heap \<Rightarrow> content \<Rightarrow> bool" where
  "moved_ok T dst src h h' c =
     (snapshot T h' dst = Some c \<and> elems T h' dst = elems T h src \<and> moved_from T h' src
      \<and> (\<forall>x. x \<notin> set (leaves T src) \<union> set (leaves T dst) \<longrightarrow> cells h' x = cells h x)
      \<and> blocks h' = blocks h \<and> brk h' = brk h)"

subsection \<open>Deep copies\<close>

text \<open>A type fits its size when the objects of an instance lie at distinct addresses
  within \<^verbatim>\<open>memory_size()\<close> of the instance; a type is well laid out when the content types
  of its sequences, at every depth, fit their sizes, so that the slots of an element block
  do not run into each other.\<close>

definition fits :: "DynamicType \<Rightarrow> bool" where
  "fits T = (distinct (leaves T 0) \<and> list_all (\<lambda>x. x < memory_size T) (leaves T 0))"

fun well_laid :: "DynamicType \<Rightarrow> bool" where
  "well_laid (PrimitiveType a) = True"
| "well_laid StringType = True"
| "well_laid (SequenceType t b) = (fits t \<and> well_laid t)"
| "well_laid (StructType nm ms) = list_all (\<lambda>m. well_laid (member_type m)) ms"

text \<open>What a copy from \<open>src\<close> to \<open>dst\<close> needs: a constructed source of a well laid out type,
  and a target in allocated memory whose objects lie at distinct addresses, none of them an
  object of the source. What it achieves: the target has the content the source had, no
  other object that existed is touched, and the element blocks of the target are new.\<close>

definition copyable :: "DynamicType \<Rightarrow> addr \<Rightarrow> addr \<Rightarrow> heap \<Rightarrow> bool" where
  "copyable T dst src h =
     (constructed T h src \<and> well_laid T \<and> distinct (leaves T dst)
      \<and> (\<forall>x\<in>set (leaves T dst). x < brk h)
      \<and> (\<forall>x\<in>set (leaves T src) \<union> set (elems T h src). x < brk h \<and> x \<notin> set (leaves T dst)))"

definition copied :: "DynamicType \<Rightarrow> addr \<Rightarrow> addr \<Rightarrow> heap \<Rightarrow> heap \<Rightarrow> bool" where
  "copied T dst src h h' =
     (snapshot T h' dst = snapshot T h src \<and> snapshot T h src \<noteq> None
      \<and> (\<forall>x. x < brk h \<longrightarrow> x \<notin> set (leaves T dst) \<longrightarrow> cells h' x = cells h x)
      \<and> brk h \<le> brk h'
      \<and> (\<forall>x\<in>set (elems T h' dst). brk h \<le> x \<and> x < brk h'))"

section \<open>Properties\<close>

subsection \<open>Equality of views\<close>

text \<open>
  C10. The equality \<open>a == b\<close> is the compare operation of the left operand's descriptor on
  the two instance addresses. The right operand's descriptor is never consulted: replacing
  it by any other descriptor leaves the result as it is. When the descriptors differ the
  left one decides, and equality need not be symmetric: the member \<^verbatim>\<open>inner\<close> of the
  \<^verbatim>\<open>Outer\<close> value, a view of type \<^verbatim>\<open>Inner{x}\<close> with \<^verbatim>\<open>x = 1\<close>, equals the \<^verbatim>\<open>Point\<close> value
  with \<^verbatim>\<open>x = 1\<close>, \<^verbatim>\<open>y = 3\<close>; the other way round the \<^verbatim>\<open>Point\<close>'s descriptor also compares
  \<^verbatim>\<open>y = 3\<close> with the 2 that follows \<^verbatim>\<open>inner\<close>, and the two are unequal.
\<close>

theorem op_eq_left_descriptor_only:
  "op_eq a b h = compare_instance (type' a) (instance' a) (instance' b) h
   \<and> op_eq a (b\<lparr>type' := t\<rparr>) h = op_eq a b h
   \<and> op_member \<lparr>type' = Outer, instance' = 0\<rparr> ''inner''
        = Inr \<lparr>type' = Inner, instance' = 0\<rparr>
   \<and> op_eq \<lparr>type' = Inner, instance' = 0\<rparr> \<lparr>type' = Point, instance' = 8\<rparr> asym_heap
        = Inr True
   \<and> op_eq \<lparr>type' = Point, instance' = 8\<rparr> \<lparr>type' = Inner, instance' = 0\<rparr> asym_heap
        = Inr False"
  by (simp add: op_eq_def op_member_def Outer_def Inner_def Point_def asym_heap_def)

subsection \<open>Member addressing\<close>

lemma has_member_find:
  "list_ex (\<lambda>m. member_name m = name) ms
    \<Longrightarrow> \<exists>m. find (\<lambda>m. member_name m = name) ms = Some m \<and> m \<in> set ms
            \<and> member_name m = name"
  by (induction ms) auto

lemma members_apart_pair:
  "members_apart ms \<Longrightarrow> m \<in> set ms \<Longrightarrow> m' \<in> set ms \<Longrightarrow> m \<noteq> m' \<Longrightarrow> apart m m'"
  by (induction ms) (auto simp: list_all_iff apart_def)

text \<open>
  C7. For a view of structure type and two member names the structure declares, member
  addressing succeeds and yields child views whose descriptor is the member's declared
  type and whose address is the parent's address plus the member's declared offset. The
  difference of the two \<open>instance_id\<close> values is the difference of the declared offsets, and
  when the declared layout keeps the members apart, the memory of two members of different
  names does not overlap.
\<close>

theorem member_addressing:
  assumes "type' v = StructType nm ms"
    and "has_member (type' v) n1" and "has_member (type' v) n2"
  shows "\<exists>m1 m2 c1 c2.
           member (type' v) n1 = Some m1 \<and> member (type' v) n2 = Some m2
         \<and> op_member v n1 = Inr c1 \<and> op_member v n2 = Inr c2
         \<and> type' c1 = member_type m1 \<and> instance' c1 = instance' v + member_offset m1
         \<and> type' c2 = member_type m2 \<and> instance' c2 = instance' v + member_offset m2
         \<and> int (instance_id c2) - int (instance_id c1)
             = int (member_offset m2) - int (member_offset m1)
         \<and> (members_apart ms \<longrightarrow> n1 \<noteq> n2 \<longrightarrow>
              {instance' c1 ..< instance' c1 + memory_size (type' c1)}
                \<inter> {instance' c2 ..< instance' c2 + memory_size (type' c2)} = {})"
proof -
  from assms obtain m1 where m1: "find (\<lambda>m. member_name m = n1) ms = Some m1"
      "m1 \<in> set ms" "member_name m1 = n1"
    using has_member_find [of n1 ms] by auto
  from assms obtain m2 where m2: "find (\<lambda>m. member_name m = n2) ms = Some m2"
      "m2 \<in> set ms" "member_name m2 = n2"
    using has_member_find [of n2 ms] by auto
  let ?c1 = "\<lparr>type' = member_type m1, instance' = instance' v + member_offset m1\<rparr>"
  let ?c2 = "\<lparr>type' = member_type m2, instance' = instance' v + member_offset m2\<rparr>"
  have c1: "op_member v n1 = Inr ?c1" and c2: "op_member v n2 = Inr ?c2"
    using assms m1 m2 by (simp_all add: op_member_def)
  have sep: "{instance' ?c1 ..< instance' ?c1 + memory_size (type' ?c1)}
                \<inter> {instance' ?c2 ..< instance' ?c2 + memory_size (type' ?c2)} = {}"
    if "members_apart ms" "n1 \<noteq> n2"
  proof -
    from that m1 m2 have "m1 \<noteq> m2" by auto
    with that m1 m2 have "apart m1 m2" by (simp add: members_apart_pair)
    then show ?thesis by (auto simp: apart_def)
  qed
  show ?thesis
    apply (rule exI [of _ m1], rule exI [of _ m2], rule exI [of _ ?c1], rule exI [of _ ?c2])
    using assms m1 m2 c1 c2 sep by (simp add: instance_id_def)
qed

theorem member_addressing_witness:
  "type' \<lparr>type' = Point, instance' = 16\<rparr> = StructType ''Point''
     [StructMember ''x'' (PrimitiveType INT32) 0, StructMember ''y'' (PrimitiveType INT32) 4]
   \<and> has_member Point ''x'' \<and> has_member Point ''y''
   \<and> members_apart
       [StructMember ''x'' (PrimitiveType INT32) 0, StructMember ''y'' (PrimitiveType INT32) 4]
   \<and> ''x'' \<noteq> ''y''
   \<and> op_member \<lparr>type' = Point, instance' = 16\<rparr> ''x''
       = Inr \<lparr>type' = PrimitiveType INT32, instance' = 16\<rparr>
   \<and> op_member \<lparr>type' = Point, instance' = 16\<rparr> ''y''
       = Inr \<lparr>type' = PrimitiveType INT32, instance' = 20\<rparr>
   \<and> {16 ..< 16 + memory_size (PrimitiveType INT32)}
       \<inter> {20 ..< 20 + memory_size (PrimitiveType INT32)} = {}"
  using member_addressing [of "\<lparr>type' = Point, instance' = 16\<rparr>" "''Point''"
      "[StructMember ''x'' (PrimitiveType INT32) 0, StructMember ''y'' (PrimitiveType INT32) 4]"
      "''x''" "''y''"]
  by (simp add: Point_def op_member_def apart_def)

subsection \<open>The assertions of \<open>as_vector\<close>\<close>

text \<open>
  C2. For a collection of primitive elements \<open>as_vector\<close> is to pass its kind
  assertion and return the elements. The second assertion of the header asks whether the view's own
  type is primitive, not whether the content type is; a collection is never primitive, so
  for every sequence of primitive elements, whatever it holds and whatever \<open>T\<close> is, the
  assertion fails.
\<close>

theorem as_vector_primitive_elements_assertion_fails:
  "as_vector T \<lparr>type' = SequenceType (PrimitiveType a) b, instance' = p\<rparr> h
     = Inl AssertionFailed"
  by (simp add: as_vector_def)

subsection \<open>Failure of an append\<close>

text \<open>
  C3 as stated does not hold: the push that finds the sequence full ends in the failed
  assertion \<^verbatim>\<open>element != nullptr\<close>, the same outcome as a push on a view that is no
  sequence; no result reaches the caller. Here the sequence holds at most one element: the
  first push succeeds, the descriptor answers the second one with the null address, and the
  second push is a failed assertion, as is a push on a view of primitive type.
\<close>

theorem push_exhaustion_counterexample:
  "push seq1 0 seq1_empty = Inr (seq1, seq1_full)
   \<and> push_instance (type' seq1) (instance' seq1) 0 seq1_full = Inr (None, seq1_full)
   \<and> push seq1 0 seq1_full = Inl AssertionFailed
   \<and> push \<lparr>type' = PrimitiveType INT32, instance' = 0\<rparr> 0 seq1_full = Inl AssertionFailed"
  by (simp add: sample_defs)

text \<open>
  C3, amended. For every view of sequence type, when the descriptor's \<open>push_instance\<close>
  answers with the null address, \<open>push\<close> ends in a failed assertion.
\<close>

theorem push_failure_is_assertion_failure:
  "kind (type' this) = SEQUENCE_TYPE
    \<Longrightarrow> push_instance (type' this) (instance' this) v h = Inr (None, h1)
    \<Longrightarrow> push this v h = Inl AssertionFailed"
  by (simp add: push_def)

theorem push_failure_is_assertion_failure_witness:
  "kind (type' seq1) = SEQUENCE_TYPE
   \<and> push_instance (type' seq1) (instance' seq1) 0 seq1_full = Inr (None, seq1_full)
   \<and> push seq1 0 seq1_full = Inl AssertionFailed"
proof -
  have k: "kind (type' seq1) = SEQUENCE_TYPE"
    by (simp add: sample_defs)
  have p: "push_instance (type' seq1) (instance' seq1) 0 seq1_full = Inr (None, seq1_full)"
    by (simp add: sample_defs)
  from k p push_failure_is_assertion_failure [OF k p] show ?thesis by simp
qed

subsection \<open>Assignment of a view to itself\<close>

lemma foldM_skip:
  "(\<And>x. x \<in> set xs \<Longrightarrow> f x s = Inr s) \<Longrightarrow> foldM f xs s = Inr s"
  by (induction xs) auto

lemma store_same: "cells h p = Some c \<Longrightarrow> store p c h = h"
  by (simp add: store_def fun_upd_idem)

lemma destroy_trivial:
  "trivially_destructible T \<Longrightarrow> destroy_instance T p h = Inr h"
  by (induction T p h rule: destroy_instance.induct)
     (auto simp: list_all_iff intro!: foldM_skip)

lemma copy_self:
  "trivially_destructible T \<Longrightarrow> constructed T h p \<Longrightarrow> copy_instance T p p h = Inr h"
  by (induction T p p h rule: copy_instance.induct)
     (auto simp: list_all_iff store_same intro!: foldM_skip split: option.splits cell.splits)

text \<open>
  C1 as stated does not hold: \<open>operator=\<close> destroys the target and then copies from the
  source, and when both are the same instance the copy reads what has just been destroyed.
  For the sequence holding one element, destroy releases the element block and ends the
  header, and the copy finds no sequence to read.
\<close>

theorem self_assignment_counterexample:
  "assign seq1 seq1 seq1_full = Inl UndefinedBehavior"
  by (simp add: sample_defs assign_def delete_array_def erase_def)

text \<open>
  C1, amended. For a view whose type is trivially destructible (a primitive, or a
  structure of such types) and whose instance is constructed, assigning the view to
  itself succeeds and changes nothing: destroy does nothing and the copy writes each
  object onto itself.
\<close>

theorem self_assignment_trivially_destructible:
  "trivially_destructible (type' v) \<Longrightarrow> constructed (type' v) h (instance' v)
    \<Longrightarrow> assign v v h = Inr (v, h)"
  by (simp add: assign_def destroy_trivial copy_self)

theorem self_assignment_trivially_destructible_witness:
  "trivially_destructible (type' point1) \<and> constructed (type' point1) point1_heap (instance' point1)
   \<and> assign point1 point1 point1_heap = Inr (point1, point1_heap)"
  using self_assignment_trivially_destructible [of point1 point1_heap]
  by (simp add: sample_defs sample_defs2)

subsection \<open>Writing and reading a scalar\<close>




subsection \<open>Appending to a sequence\<close>

lemma push_instance_Some:
  assumes "push_instance (SequenceType t b) p r h = Inr (Some e, h')"
  obtains blk n h1 where "cells h p = Some (SequenceInstance (Some blk) n)" and "n < b"
    and "copy_instance t (blk + n * memory_size t) r h = Inr h1"
    and "h' = store p (SequenceInstance (Some blk) (Suc n)) h1"
proof (cases "cells h p")
  case None
  with assms show ?thesis by simp
next
  case (Some c)
  show ?thesis
  proof (cases c)
    case (Object x)
    with Some assms show ?thesis by simp
  next
    case (SequenceInstance ob n)
    show ?thesis
    proof (cases ob)
      case None
      with Some SequenceInstance assms show ?thesis by simp
    next
      case (Some blk)
      note blk = this
      show ?thesis
      proof (cases "n < b")
        case True
        show ?thesis
        proof (cases "copy_instance t (blk + n * memory_size t) r h")
          case (Inl e')
          with \<open>cells h p = Some c\<close> SequenceInstance blk True assms show ?thesis by simp
        next
          case (Inr h1)
          with \<open>cells h p = Some c\<close> SequenceInstance blk True assms that show ?thesis
            by simp
        qed
      next
        case False
        with \<open>cells h p = Some c\<close> SequenceInstance blk assms show ?thesis by simp
      qed
    qed
  qed
qed

text \<open>
  C9. For a view of sequence type whose elements are primitives or strings and whose
  header lies outside its own element block, when \<open>push\<close> of a caller's object succeeds
  the size afterwards is the size before plus one, and indexed addressing at the new last
  index yields a view whose value is the pushed object.
\<close>

theorem push_appends:
  assumes "type' v = SequenceType t b"
    and "is_primitive_type t \<or> kind t = STRING_TYPE"
    and "header_apart (type' v) (instance' v) h"
    and "push v r h = Inr (w, h')"
  shows "\<exists>n c x. cells h r = Some (Object x)
           \<and> size_of v h = Inr n \<and> size_of w h' = Inr (Suc n)
           \<and> op_index w n h' = Inr c \<and> value (ctype_of x) c h' = Inr x"
proof -
  from assms(1,4) obtain e where
    pi: "push_instance (SequenceType t b) (instance' v) r h = Inr (Some e, h')" and w: "w = v"
    by (cases "push_instance (SequenceType t b) (instance' v) r h")
       (auto simp: push_def split: if_splits)
  from pi obtain blk n h1 where
    hdr: "cells h (instance' v) = Some (SequenceInstance (Some blk) n)" and
    n: "n < b" and
    cp: "copy_instance t (blk + n * memory_size t) r h = Inr h1" and
    h': "h' = store (instance' v) (SequenceInstance (Some blk) (Suc n)) h1"
    by (rule push_instance_Some)
  from assms(2) have pos: "0 < memory_size t"
    by (cases t) (auto simp: sizeof_string_def, (case_tac x1; simp))
  have lt: "n * memory_size t < b * memory_size t"
    using n pos by simp
  have ne: "blk + n * memory_size t \<noteq> instance' v"
  proof
    assume eq: "blk + n * memory_size t = instance' v"
    from assms(1,3) hdr
    have "\<not> (blk \<le> instance' v \<and> instance' v < blk + b * memory_size t)"
      by (simp add: header_apart_def)
    with eq lt show False by linarith
  qed
  from assms(2) cp obtain x where
    x: "cells h r = Some (Object x)" "matches t x" and
    h1: "h1 = store (blk + n * memory_size t) (Object x) h"
    by (cases t) (auto split: option.splits cell.splits if_splits scalar.splits)
  let ?c = "\<lparr>type' = t, instance' = blk + n * memory_size t\<rparr>"
  have "size_of v h = Inr n"
    using assms(1) hdr by (simp add: size_of_def)
  moreover have "size_of w h' = Inr (Suc n)"
    using assms(1) w h' by (simp add: size_of_def store_def)
  moreover have "op_index w n h' = Inr ?c"
    using assms(1) w h' by (simp add: op_index_def size_of_def store_def)
  moreover have "value (ctype_of x) ?c h' = Inr x"
    using assms(2) x h' h1 ne by (cases t) (auto simp: value_def store_def)
  ultimately show ?thesis using x by blast
qed

theorem push_appends_witness:
  "type' seq1 = SequenceType (PrimitiveType INT32) 1
   \<and> (is_primitive_type (PrimitiveType INT32) \<or> kind (PrimitiveType INT32) = STRING_TYPE)
   \<and> header_apart (type' seq1) (instance' seq1) seq1_empty
   \<and> push seq1 0 seq1_empty = Inr (seq1, seq1_full)
   \<and> size_of seq1 seq1_empty = Inr 0 \<and> size_of seq1 seq1_full = Inr 1
   \<and> (\<exists>c. op_index seq1 0 seq1_full = Inr c \<and> value (Arith INT32) c seq1_full = Inr (Int32V 7))"
  using push_appends [of seq1 "PrimitiveType INT32" 1 seq1_empty 0 seq1 seq1_full]
  by (simp add: sample_defs size_of_def header_apart_def)

subsection \<open>Traversal\<close>

lemma mapM_Inr_iff: "mapM g xs = Inr ys \<longleftrightarrow> list_all2 (\<lambda>x y. g x = Inr y) xs ys"
proof (induction xs arbitrary: ys)
  case Nil
  then show ?case by auto
next
  case (Cons x xs)
  have IH: "list_all2 (\<lambda>x y. g x = Inr y) xs zs \<longleftrightarrow> mapM g xs = Inr zs" for zs
    using Cons.IH by simp
  show ?case
    by (cases ys; cases "g x"; cases "mapM g xs") (auto simp: IH)
qed

lemma foldM_mapM:
  "(\<And>x s. x \<in> set xs \<Longrightarrow>
      F x s = (case G x of Inl e \<Rightarrow> Inl e | Inr ns \<Rightarrow> Inr (fold f ns s)))
   \<Longrightarrow> foldM F xs s =
        (case mapM G xs of Inl e \<Rightarrow> Inl e | Inr nss \<Rightarrow> Inr (fold f (concat nss) s))"
  by (induction xs arbitrary: s) (auto split: sum.splits)

lemma for_each_instance_document_order:
  "for_each_instance T n f h s =
     (case document_order T n h of Inl e \<Rightarrow> Inl e | Inr ns \<Rightarrow> Inr (fold f ns s))"
proof (induction T n f h s rule: for_each_instance.induct)
  case (1 a node visitor h s)
  then show ?case by simp
next
  case (2 node visitor h s)
  then show ?case by simp
next
  case (3 t b node visitor h s)
  show ?case
  proof (cases "cells h (node_instance node)")
    case None
    then show ?thesis by simp
  next
    case (Some c)
    show ?thesis
    proof (cases c)
      case (Object x)
      with Some show ?thesis by simp
    next
      case (SequenceInstance ob k)
      show ?thesis
      proof (cases ob)
        case None
        with Some SequenceInstance show ?thesis by simp
      next
        case (Some blk)
        have "foldM (\<lambda>i. for_each_instance t
                (element_node node t (blk + i * memory_size t) i) visitor h) [0..<k] (visitor node s)
            = (case mapM (\<lambda>i. document_order t
                  (element_node node t (blk + i * memory_size t) i) h) [0..<k] of
                 Inl e \<Rightarrow> Inl e
               | Inr nss \<Rightarrow> Inr (fold visitor (concat nss) (visitor node s)))"
          by (rule foldM_mapM) (rule 3 [OF \<open>cells h (node_instance node) = Some c\<close> SequenceInstance Some])
        with \<open>cells h (node_instance node) = Some c\<close> SequenceInstance Some show ?thesis
          by (simp split: sum.splits)
      qed
    qed
  qed
next
  case (4 nm ms node visitor h s)
  have "foldM (\<lambda>m. for_each_instance (member_type m) (member_node node m) visitor h) ms
          (visitor node s)
      = (case mapM (\<lambda>m. document_order (member_type m) (member_node node m) h) ms of
           Inl e \<Rightarrow> Inl e
         | Inr nss \<Rightarrow> Inr (fold visitor (concat nss) (visitor node s)))"
    by (rule foldM_mapM) (rule 4)
  then show ?case by (simp split: sum.splits)
qed

lemma sub_instance_trans:
  "sub_instance h c x \<Longrightarrow> sub_instance h n c \<Longrightarrow> sub_instance h n x"
  by (induction rule: sub_instance.induct) (auto intro: sub_instance.intros)

lemma list_all2_in_right:
  "list_all2 P xs ys \<Longrightarrow> y \<in> set ys \<Longrightarrow> \<exists>x\<in>set xs. P x y"
  by (induction rule: list_all2_induct) auto

lemma list_all2_in_left:
  "list_all2 P xs ys \<Longrightarrow> x \<in> set xs \<Longrightarrow> \<exists>y\<in>set ys. P x y"
  by (induction rule: list_all2_induct) auto

lemma list_all2_conjI:
  "list_all2 P xs ys \<Longrightarrow> (\<And>x y. x \<in> set xs \<Longrightarrow> P x y \<Longrightarrow> Q x y)
    \<Longrightarrow> list_all2 (\<lambda>x y. P x y \<and> Q x y) xs ys"
  by (induction rule: list_all2_induct) auto

lemma document_order_StructE:
  assumes "document_order (StructType nm ms) n h = Inr ns"
  obtains nss where "ns = n # concat nss"
    "list_all2 (\<lambda>m y. document_order (member_type m) (member_node n m) h = Inr y) ms nss"
  using assms by (auto simp: mapM_Inr_iff split: sum.splits)

lemma document_order_SequenceE:
  assumes "document_order (SequenceType t b) n h = Inr ns"
    and "cells h (node_instance n) = Some (SequenceInstance (Some blk) k)"
  obtains nss where "ns = n # concat nss"
    "list_all2 (\<lambda>i y. document_order t (element_node n t (blk + i * memory_size t) i) h = Inr y)
       [0..<k] nss"
  using assms by (auto simp: mapM_Inr_iff split: sum.splits)

lemma document_order_induct
  [consumes 1, case_names primitive string moved members elements]:
  assumes "document_order T n h = Inr ns"
    and primitive: "\<And>a n. P (PrimitiveType a) n [n]"
    and string: "\<And>n. P StringType n [n]"
    and moved: "\<And>t b n k. cells h (node_instance n) = Some (SequenceInstance None k)
        \<Longrightarrow> P (SequenceType t b) n [n]"
    and members: "\<And>nm ms n nss.
        document_order (StructType nm ms) n h = Inr (n # concat nss) \<Longrightarrow>
        list_all2 (\<lambda>m y. document_order (member_type m) (member_node n m) h = Inr y
                          \<and> P (member_type m) (member_node n m) y) ms nss
        \<Longrightarrow> P (StructType nm ms) n (n # concat nss)"
    and elements: "\<And>t b n blk k nss.
        document_order (SequenceType t b) n h = Inr (n # concat nss) \<Longrightarrow>
        cells h (node_instance n) = Some (SequenceInstance (Some blk) k) \<Longrightarrow>
        list_all2 (\<lambda>i y. document_order t (element_node n t (blk + i * memory_size t) i) h = Inr y
                          \<and> P t (element_node n t (blk + i * memory_size t) i) y) [0..<k] nss
        \<Longrightarrow> P (SequenceType t b) n (n # concat nss)"
  shows "P T n ns"
proof -
  have "document_order T n g = Inr ns \<Longrightarrow> g = h \<Longrightarrow> P T n ns" for g
  proof (induction T n g arbitrary: ns rule: document_order.induct)
    case (1 a node g)
    then show ?case using primitive by auto
  next
    case (2 node g)
    then show ?case using string by auto
  next
    case (3 t b node g)
    note [simp] = \<open>g = h\<close>
    show ?case
    proof (cases "cells h (node_instance node)")
      case None
      with "3.prems"(1) show ?thesis by simp
    next
      case (Some c)
      show ?thesis
      proof (cases c)
        case (Object x)
        with Some "3.prems"(1) show ?thesis by simp
      next
        case (SequenceInstance ob k)
        show ?thesis
        proof (cases ob)
          case None
          with \<open>cells h (node_instance node) = Some c\<close> SequenceInstance "3.prems"(1)
            moved [of node k t b]
          show ?thesis by simp
        next
          case (Some blk)
          with \<open>cells h (node_instance node) = Some c\<close> SequenceInstance
          have hdr: "cells h (node_instance node) = Some (SequenceInstance (Some blk) k)"
            by simp
          from "3.prems"(1) have d: "document_order (SequenceType t b) node h = Inr ns"
            by simp
          from d hdr obtain nss where nss: "ns = node # concat nss"
            "list_all2 (\<lambda>i y. document_order t
               (element_node node t (blk + i * memory_size t) i) h = Inr y) [0..<k] nss"
            by (rule document_order_SequenceE)
          have "list_all2 (\<lambda>i y. document_order t
              (element_node node t (blk + i * memory_size t) i) h = Inr y
              \<and> P t (element_node node t (blk + i * memory_size t) i) y) [0..<k] nss"
            using nss(2)
          proof (rule list_all2_conjI)
            fix i y assume "i \<in> set [0..<k]"
              and "document_order t (element_node node t (blk + i * memory_size t) i) h = Inr y"
            then show "P t (element_node node t (blk + i * memory_size t) i) y"
              using "3.IH" [OF _ refl refl, of blk k i y] hdr by simp
          qed
          with elements [of t b node nss blk k] d hdr nss(1) show ?thesis
            by simp
        qed
      qed
    qed
  next
    case (4 nm ms node g)
    note [simp] = \<open>g = h\<close>
    from "4.prems"(1) have d: "document_order (StructType nm ms) node h = Inr ns"
      by simp
    then obtain nss where nss: "ns = node # concat nss"
      "list_all2 (\<lambda>m y. document_order (member_type m) (member_node node m) h = Inr y) ms nss"
      by (rule document_order_StructE)
    have "list_all2 (\<lambda>m y. document_order (member_type m) (member_node node m) h = Inr y
        \<and> P (member_type m) (member_node node m) y) ms nss"
      using nss(2)
    proof (rule list_all2_conjI)
      fix m y assume "m \<in> set ms"
        and "document_order (member_type m) (member_node node m) h = Inr y"
      then show "P (member_type m) (member_node node m) y"
        using "4.IH" [of m y] by simp
    qed
    with members [of nm ms node nss] d nss(1) show ?case
      by simp
  qed
  with assms(1) show ?thesis by simp
qed

lemma document_order_root_first:
  "document_order T n h = Inr ns \<Longrightarrow> \<exists>rest. ns = n # rest"
  by (induction rule: document_order_induct) simp_all

lemma document_order_sub_instance:
  assumes "document_order T n h = Inr ns"
  shows "node_type n = T \<longrightarrow> (\<forall>x\<in>set ns. sub_instance h n x)"
  using assms
proof (induction rule: document_order_induct)
  case (primitive a n)
  then show ?case by (simp add: sub_instance.root)
next
  case (string n)
  then show ?case by (simp add: sub_instance.root)
next
  case (moved t b n k)
  then show ?case by (simp add: sub_instance.root)
next
  case (members nm ms n nss)
  show ?case
  proof (intro impI ballI)
    fix x assume ty: "node_type n = StructType nm ms" and x: "x \<in> set (n # concat nss)"
    show "sub_instance h n x"
    proof (cases "x = n")
      case True
      then show ?thesis by (simp add: sub_instance.root)
    next
      case False
      with x obtain ys where ys: "ys \<in> set nss" "x \<in> set ys" by auto
      from list_all2_in_right [OF members(2) ys(1)] obtain m where m: "m \<in> set ms"
        "node_type (member_node n m) = member_type m
          \<longrightarrow> (\<forall>x\<in>set ys. sub_instance h (member_node n m) x)"
        by (elim bexE conjE)
      from m(2) ys(2) have "sub_instance h (member_node n m) x"
        by (simp add: member_node_def)
      moreover have "sub_instance h n (member_node n m)"
        using ty m(1) by (rule sub_instance.member [OF sub_instance.root])
      ultimately show ?thesis by (rule sub_instance_trans)
    qed
  qed
next
  case (elements t b n blk k nss)
  show ?case
  proof (intro impI ballI)
    fix x assume ty: "node_type n = SequenceType t b" and x: "x \<in> set (n # concat nss)"
    show "sub_instance h n x"
    proof (cases "x = n")
      case True
      then show ?thesis by (simp add: sub_instance.root)
    next
      case False
      with x obtain ys where ys: "ys \<in> set nss" "x \<in> set ys" by auto
      from list_all2_in_right [OF elements(3) ys(1)] obtain i where i: "i \<in> set [0..<k]"
        "node_type (element_node n t (blk + i * memory_size t) i) = t
          \<longrightarrow> (\<forall>x\<in>set ys. sub_instance h (element_node n t (blk + i * memory_size t) i) x)"
        by (elim bexE conjE)
      from i(2) ys(2) have "sub_instance h (element_node n t (blk + i * memory_size t) i) x"
        by (simp add: element_node_def)
      moreover have "sub_instance h n (element_node n t (blk + i * memory_size t) i)"
        using ty elements(2) i(1)
        by (intro sub_instance.element [OF sub_instance.root]) simp_all
      ultimately show ?thesis by (rule sub_instance_trans)
    qed
  qed
qed

lemma document_order_closed:
  assumes "document_order T n h = Inr ns"
  shows "node_type n = T \<longrightarrow>
    (\<forall>x\<in>set ns. \<exists>ns'. document_order (node_type x) x h = Inr ns' \<and> set ns' \<subseteq> set ns)"
  using assms
proof (induction rule: document_order_induct)
  case (primitive a n)
  then show ?case by auto
next
  case (string n)
  then show ?case by auto
next
  case (moved t b n k)
  then show ?case by auto
next
  case (members nm ms n nss)
  show ?case
  proof (intro impI ballI)
    fix x assume ty: "node_type n = StructType nm ms" and x: "x \<in> set (n # concat nss)"
    show "\<exists>ns'. document_order (node_type x) x h = Inr ns' \<and> set ns' \<subseteq> set (n # concat nss)"
    proof (cases "x = n")
      case True
      with ty members(1) show ?thesis by auto
    next
      case False
      with x obtain ys where ys: "ys \<in> set nss" "x \<in> set ys" by auto
      from list_all2_in_right [OF members(2) ys(1)] obtain m where
        "node_type (member_node n m) = member_type m \<longrightarrow>
          (\<forall>x\<in>set ys. \<exists>ns'. document_order (node_type x) x h = Inr ns' \<and> set ns' \<subseteq> set ys)"
        by (elim bexE conjE)
      with ys(2) obtain ns' where "document_order (node_type x) x h = Inr ns'" "set ns' \<subseteq> set ys"
        by (auto simp: member_node_def)
      with ys(1) show ?thesis by auto
    qed
  qed
next
  case (elements t b n blk k nss)
  show ?case
  proof (intro impI ballI)
    fix x assume ty: "node_type n = SequenceType t b" and x: "x \<in> set (n # concat nss)"
    show "\<exists>ns'. document_order (node_type x) x h = Inr ns' \<and> set ns' \<subseteq> set (n # concat nss)"
    proof (cases "x = n")
      case True
      with ty elements(1) show ?thesis by auto
    next
      case False
      with x obtain ys where ys: "ys \<in> set nss" "x \<in> set ys" by auto
      from list_all2_in_right [OF elements(3) ys(1)] obtain i where
        "node_type (element_node n t (blk + i * memory_size t) i) = t \<longrightarrow>
          (\<forall>x\<in>set ys. \<exists>ns'. document_order (node_type x) x h = Inr ns' \<and> set ns' \<subseteq> set ys)"
        by (elim bexE conjE)
      with ys(2) obtain ns' where "document_order (node_type x) x h = Inr ns'" "set ns' \<subseteq> set ys"
        by (auto simp: element_node_def)
      with ys(1) show ?thesis by auto
    qed
  qed
qed

lemma document_order_complete:
  assumes "sub_instance h root x" and "document_order (node_type root) root h = Inr ns"
  shows "x \<in> set ns"
  using assms
proof (induction rule: sub_instance.induct)
  case root
  then show ?case using document_order_root_first by fastforce
next
  case (member n nm ms m)
  then have "n \<in> set ns" by simp
  with document_order_closed [OF member.prems] obtain ns' where
    ns': "document_order (node_type n) n h = Inr ns'" "set ns' \<subseteq> set ns"
    by auto
  from ns'(1) member.hyps(2) have "document_order (StructType nm ms) n h = Inr ns'"
    by simp
  then obtain nss where nss: "ns' = n # concat nss"
    "list_all2 (\<lambda>m y. document_order (member_type m) (member_node n m) h = Inr y) ms nss"
    by (rule document_order_StructE)
  from list_all2_in_left [OF nss(2) member.hyps(3)] obtain ys where
    ys: "ys \<in> set nss" "document_order (member_type m) (member_node n m) h = Inr ys"
    by (elim bexE)
  from document_order_root_first [OF ys(2)] have "member_node n m \<in> set ys" by auto
  with ys(1) nss(1) ns'(2) show ?case by auto
next
  case (element n t b blk k i)
  then have "n \<in> set ns" by simp
  with document_order_closed [OF element.prems] obtain ns' where
    ns': "document_order (node_type n) n h = Inr ns'" "set ns' \<subseteq> set ns"
    by auto
  from ns'(1) element.hyps(2) have "document_order (SequenceType t b) n h = Inr ns'"
    by simp
  then obtain nss where nss: "ns' = n # concat nss"
    "list_all2 (\<lambda>i y. document_order t (element_node n t (blk + i * memory_size t) i) h = Inr y)
       [0..<k] nss"
    using element.hyps(3) by (rule document_order_SequenceE)
  have "i \<in> set [0..<k]" using element.hyps(4) by simp
  from list_all2_in_left [OF nss(2) this] obtain ys where
    ys: "ys \<in> set nss"
      "document_order t (element_node n t (blk + i * memory_size t) i) h = Inr ys"
    by (elim bexE)
  from document_order_root_first [OF ys(2)]
  have "element_node n t (blk + i * memory_size t) i \<in> set ys" by auto
  with ys(1) nss(1) ns'(2) show ?case by auto
qed

lemma parent_smaller: "parent c = Some n \<Longrightarrow> size n < size c"
  by (cases c) simp

lemma parent_member_node [simp]: "parent (member_node n m) = Some n"
  by (simp add: member_node_def)

lemma parent_element_node [simp]: "parent (element_node n t p i) = Some n"
  by (simp add: element_node_def)

lemma sub_instance_size: "sub_instance h c x \<Longrightarrow> size c \<le> size x"
  by (induction rule: sub_instance.induct) (auto simp: member_node_def element_node_def)

lemma sub_instance_siblings:
  assumes "sub_instance h c1 x" and "sub_instance h c2 x"
    and "parent c1 = Some n" and "parent c2 = Some n"
  shows "c1 = c2"
  using assms
proof (induction rule: sub_instance.induct)
  case root
  note c1 = \<open>parent c1 = Some n\<close> and c2 = \<open>parent c2 = Some n\<close>
  from \<open>sub_instance h c2 c1\<close> show ?case
  proof (cases rule: sub_instance.cases)
    case root
    then show ?thesis by simp
  next
    case (member n' nm ms m)
    with c1 have "n' = n" by auto
    with member have "size c2 \<le> size n" using sub_instance_size by blast
    with parent_smaller [OF c2] show ?thesis by simp
  next
    case (element n' t b blk k i)
    with c1 have "n' = n" by auto
    with element have "size c2 \<le> size n" using sub_instance_size by blast
    with parent_smaller [OF c2] show ?thesis by simp
  qed
next
  case (member n' nm ms m)
  note below = \<open>sub_instance h c1 n'\<close>
    and IH = \<open>sub_instance h c2 n' \<Longrightarrow> parent c1 = Some n \<Longrightarrow> parent c2 = Some n \<Longrightarrow> c1 = c2\<close>
    and c1 = \<open>parent c1 = Some n\<close> and c2 = \<open>parent c2 = Some n\<close>
  from \<open>sub_instance h c2 (member_node n' m)\<close> show ?case
  proof (cases rule: sub_instance.cases)
    case root
    with c2 have "n' = n" by auto
    with below have "size c1 \<le> size n" using sub_instance_size by blast
    with parent_smaller [OF c1] show ?thesis by simp
  next
    case (member n'' nm' ms' m')
    then have "n'' = n'" by (simp add: member_node_def)
    with member(2) IH c1 c2 show ?thesis by simp
  next
    case (element n'' t b blk k i)
    then have "n'' = n'" by (simp add: member_node_def element_node_def)
    with element(2) IH c1 c2 show ?thesis by simp
  qed
next
  case (element n' t b blk k i)
  note below = \<open>sub_instance h c1 n'\<close>
    and IH = \<open>sub_instance h c2 n' \<Longrightarrow> parent c1 = Some n \<Longrightarrow> parent c2 = Some n \<Longrightarrow> c1 = c2\<close>
    and c1 = \<open>parent c1 = Some n\<close> and c2 = \<open>parent c2 = Some n\<close>
  from \<open>sub_instance h c2 (element_node n' t (blk + i * memory_size t) i)\<close> show ?case
  proof (cases rule: sub_instance.cases)
    case root
    with c2 have "n' = n" by auto
    with below have "size c1 \<le> size n" using sub_instance_size by blast
    with parent_smaller [OF c1] show ?thesis by simp
  next
    case (member n'' nm' ms' m')
    then have "n'' = n'" by (simp add: member_node_def element_node_def)
    with member(2) IH c1 c2 show ?thesis by simp
  next
    case (element n'' t' b' blk' k' i')
    then have "n'' = n'" by (simp add: element_node_def)
    with element(2) IH c1 c2 show ?thesis by simp
  qed
qed

lemma distinct_concat_all2:
  assumes "list_all2 R xs yss" and "distinct xs"
    and "\<And>x y. x \<in> set xs \<Longrightarrow> R x y \<Longrightarrow> distinct y"
    and "\<And>x x' y y'. x \<in> set xs \<Longrightarrow> x' \<in> set xs \<Longrightarrow> x \<noteq> x' \<Longrightarrow> R x y \<Longrightarrow> R x' y'
          \<Longrightarrow> set y \<inter> set y' = {}"
  shows "distinct (concat yss)"
  using assms
proof (induction rule: list_all2_induct)
  case Nil
  then show ?case by simp
next
  case (Cons x xs y yss)
  have "set y \<inter> set (concat yss) = {}"
  proof -
    have "set y \<inter> set y' = {}" if "y' \<in> set yss" for y'
    proof -
      from list_all2_in_right [OF Cons.hyps(2) that] obtain x' where "x' \<in> set xs" "R x' y'"
        by blast
      with Cons.prems(1) Cons.hyps(1) Cons.prems(3) [of x x' y y'] show ?thesis
        by auto
    qed
    then show ?thesis by auto
  qed
  moreover have "distinct y" using Cons.prems(2) [of x y] Cons.hyps(1) by simp
  moreover have "distinct (concat yss)"
  proof (rule Cons.IH)
    show "distinct xs" using Cons.prems(1) by simp
  next
    fix x' y' assume "x' \<in> set xs" "R x' y'"
    then show "distinct y'" using Cons.prems(2) [of x' y'] by simp
  next
    fix a a' c c' assume "a \<in> set xs" "a' \<in> set xs" "a \<noteq> a'" "R a c" "R a' c'"
    then show "set c \<inter> set c' = {}" using Cons.prems(3) [of a a' c c'] by simp
  qed
  ultimately show ?case by simp
qed

lemma member_node_inj: "member_node n m = member_node n m' \<Longrightarrow> m = m'"
  by (simp add: member_node_def)

lemma document_order_distinct:
  assumes "document_order T n h = Inr ns"
  shows "distinct_members T \<longrightarrow> node_type n = T \<longrightarrow> distinct ns"
  using assms
proof (induction rule: document_order_induct)
  case (primitive a n)
  then show ?case by simp
next
  case (string n)
  then show ?case by simp
next
  case (moved t b n k)
  then show ?case by simp
next
  case (members nm ms n nss)
  show ?case
  proof (intro impI)
    assume dm: "distinct_members (StructType nm ms)" and ty: "node_type n = StructType nm ms"
    let ?R = "\<lambda>m y. document_order (member_type m) (member_node n m) h = Inr y
        \<and> (distinct_members (member_type m) \<longrightarrow> node_type (member_node n m) = member_type m
            \<longrightarrow> distinct y)"
    have under: "sub_instance h (member_node n m) x" if "?R m y" "x \<in> set y" for m y x
      using that document_order_sub_instance [of "member_type m" "member_node n m" h y]
      by (simp add: member_node_def)
    have "n \<notin> set (concat nss)"
    proof
      assume "n \<in> set (concat nss)"
      then obtain y where y: "y \<in> set nss" "n \<in> set y" by auto
      from list_all2_in_right [OF members(2) y(1)] obtain m where "?R m y" by blast
      from sub_instance_size [OF under [OF this y(2)]] parent_smaller [of "member_node n m" n]
      show False by simp
    qed
    moreover have "distinct (concat nss)"
      using members(2)
    proof (rule distinct_concat_all2)
      show "distinct ms" using dm by simp
    next
      fix m y assume "m \<in> set ms" "?R m y"
      with dm show "distinct y" by (simp add: list_all_iff member_node_def)
    next
      fix m m' y y' assume ne: "m \<noteq> m'" and R: "?R m y" "?R m' y'"
      show "set y \<inter> set y' = {}"
      proof (rule ccontr)
        assume "set y \<inter> set y' \<noteq> {}"
        then obtain x where "x \<in> set y" "x \<in> set y'" by auto
        with R have "sub_instance h (member_node n m) x" "sub_instance h (member_node n m') x"
          using under by blast+
        then have "member_node n m = member_node n m'"
          by (rule sub_instance_siblings) simp_all
        with ne show False by (simp add: member_node_inj)
      qed
    qed
    ultimately show "distinct (n # concat nss)" by simp
  qed
next
  case (elements t b n blk k nss)
  show ?case
  proof (intro impI)
    assume dm: "distinct_members (SequenceType t b)" and ty: "node_type n = SequenceType t b"
    let ?c = "\<lambda>i. element_node n t (blk + i * memory_size t) i"
    let ?R = "\<lambda>i y. document_order t (?c i) h = Inr y
        \<and> (distinct_members t \<longrightarrow> node_type (?c i) = t \<longrightarrow> distinct y)"
    have under: "sub_instance h (?c i) x" if "?R i y" "x \<in> set y" for i y x
      using that document_order_sub_instance [of t "?c i" h y]
      by (simp add: element_node_def)
    have "n \<notin> set (concat nss)"
    proof
      assume "n \<in> set (concat nss)"
      then obtain y where y: "y \<in> set nss" "n \<in> set y" by auto
      from list_all2_in_right [OF elements(3) y(1)] obtain i where "?R i y" by blast
      from sub_instance_size [OF under [OF this y(2)]] parent_smaller [of "?c i" n]
      show False by simp
    qed
    moreover have "distinct (concat nss)"
      using elements(3)
    proof (rule distinct_concat_all2)
      show "distinct [0..<k]" by simp
    next
      fix i y assume "i \<in> set [0..<k]" "?R i y"
      with dm show "distinct y" by (simp add: element_node_def)
    next
      fix i i' y y' assume ne: "i \<noteq> i'" and R: "?R i y" "?R i' y'"
      show "set y \<inter> set y' = {}"
      proof (rule ccontr)
        assume "set y \<inter> set y' \<noteq> {}"
        then obtain x where "x \<in> set y" "x \<in> set y'" by auto
        with R have "sub_instance h (?c i) x" "sub_instance h (?c i') x"
          using under by blast+
        then have "?c i = ?c i'"
          by (rule sub_instance_siblings) simp_all
        with ne show False by (simp add: element_node_def)
      qed
    qed
    ultimately show "distinct (n # concat nss)" by simp
  qed
qed

lemma document_order_unmodified:
  assumes "document_order T n h = Inr ns"
  shows "(\<forall>x\<in>set ns. cells h' (node_instance x) = cells h (node_instance x))
    \<longrightarrow> document_order T n h' = Inr ns"
  using assms
proof (induction rule: document_order_induct)
  case (primitive a n)
  then show ?case by simp
next
  case (string n)
  then show ?case by simp
next
  case (moved t b n k)
  then show ?case by simp
next
  case (members nm ms n nss)
  show ?case
  proof
    assume same: "\<forall>x\<in>set (n # concat nss). cells h' (node_instance x) = cells h (node_instance x)"
    have "list_all2 (\<lambda>m y. document_order (member_type m) (member_node n m) h' = Inr y) ms nss"
      using members(2)
    proof (rule list.rel_mono_strong)
      fix m y assume "y \<in> set nss"
        and "document_order (member_type m) (member_node n m) h = Inr y \<and>
          ((\<forall>x\<in>set y. cells h' (node_instance x) = cells h (node_instance x)) \<longrightarrow>
           document_order (member_type m) (member_node n m) h' = Inr y)"
      with same show "document_order (member_type m) (member_node n m) h' = Inr y"
        by auto
    qed
    then show "document_order (StructType nm ms) n h' = Inr (n # concat nss)"
      by (simp add: mapM_Inr_iff [symmetric])
  qed
next
  case (elements t b n blk k nss)
  show ?case
  proof
    assume same: "\<forall>x\<in>set (n # concat nss). cells h' (node_instance x) = cells h (node_instance x)"
    let ?c = "\<lambda>i. element_node n t (blk + i * memory_size t) i"
    have "list_all2 (\<lambda>i y. document_order t (?c i) h' = Inr y) [0..<k] nss"
      using elements(3)
    proof (rule list.rel_mono_strong)
      fix i y assume "y \<in> set nss"
        and "document_order t (?c i) h = Inr y \<and>
          ((\<forall>x\<in>set y. cells h' (node_instance x) = cells h (node_instance x)) \<longrightarrow>
           document_order t (?c i) h' = Inr y)"
      with same show "document_order t (?c i) h' = Inr y"
        by auto
    qed
    moreover have "cells h' (node_instance n) = Some (SequenceInstance (Some blk) k)"
      using same elements(2) by simp
    ultimately show "document_order (SequenceType t b) n h' = Inr (n # concat nss)"
      by (simp add: mapM_Inr_iff [symmetric])
  qed
qed

lemma mapM_total:
  "(\<And>x. x \<in> set xs \<Longrightarrow> \<exists>y. g x = Inr y) \<Longrightarrow> \<exists>ys. mapM g xs = Inr ys"
proof (induction xs)
  case Nil
  then show ?case by simp
next
  case (Cons x xs)
  then obtain y ys where "g x = Inr y" "mapM g xs = Inr ys"
    by (meson list.set_intros)
  then show ?case by simp
qed

lemma document_order_total:
  "constructed T h (node_instance n) \<Longrightarrow> \<exists>ns. document_order T n h = Inr ns"
proof (induction T n h rule: document_order.induct)
  case (1 a node h)
  then show ?case by simp
next
  case (2 node h)
  then show ?case by simp
next
  case (3 t b node h)
  show ?case
  proof (cases "cells h (node_instance node)")
    case None
    with "3.prems" show ?thesis by simp
  next
    case (Some c)
    show ?thesis
    proof (cases c)
      case (Object x)
      with Some "3.prems" show ?thesis by simp
    next
      case (SequenceInstance ob k)
      show ?thesis
      proof (cases ob)
        case None
        with \<open>cells h (node_instance node) = Some c\<close> SequenceInstance show ?thesis by simp
      next
        case (Some blk)
        with \<open>cells h (node_instance node) = Some c\<close> SequenceInstance
        have hdr: "cells h (node_instance node) = Some (SequenceInstance (Some blk) k)"
          by simp
        have "\<exists>ys. mapM (\<lambda>i. document_order t
            (element_node node t (blk + i * memory_size t) i) h) [0..<k] = Inr ys"
        proof (rule mapM_total)
          fix i assume i: "i \<in> set [0..<k]"
          with "3.prems" hdr have "constructed t h (blk + i * memory_size t)"
            by (simp add: list_all_iff)
          then show "\<exists>y. document_order t (element_node node t (blk + i * memory_size t) i) h
              = Inr y"
            using "3.IH" [OF hdr refl refl i] by (simp add: element_node_def)
        qed
        with hdr show ?thesis by auto
      qed
    qed
  qed
next
  case (4 nm ms node h)
  have "\<exists>ys. mapM (\<lambda>m. document_order (member_type m) (member_node node m) h) ms = Inr ys"
  proof (rule mapM_total)
    fix m assume m: "m \<in> set ms"
    with "4.prems" have "constructed (member_type m) h (node_instance node + member_offset m)"
      by (simp add: list_all_iff)
    then show "\<exists>y. document_order (member_type m) (member_node node m) h = Inr y"
      using "4.IH" [OF m] by (simp add: member_node_def)
  qed
  then show ?case by auto
qed

lemma track1_eval:
  "track1 = \<lparr>type' = Track, instance' = 4\<rparr>"
  "cells track1_heap 4 = Some (Object (Int32V 0))"
  "cells track1_heap 8 = Some (SequenceInstance (Some 40) 1)"
  "cells track1_heap 40 = Some (Object (Int32V 7))"
  by (simp_all add: track_defs sample_defs)

text \<open>
  C8. For a view on a constructed instance whose structures list no member twice,
  \<open>for_each\<close> succeeds and calls the visitor on the nodes of one list, in the order of the
  list: the list is the document order of the instance (the node before its children, the
  members in declaration order, the elements in index order, depth-first); it starts with
  the root, holds no node twice, and its nodes are exactly the sub-instances reachable from
  the root. On every store that agrees with this one at the nodes' addresses, and so on the
  same store again, \<open>for_each\<close> gives the same result.
\<close>

theorem for_each_document_order:
  assumes "constructed (type' this) h (instance' this)"
    and "distinct_members (type' this)"
  shows "\<exists>ns. document_order (type' this) (root_node (type' this) (instance' this)) h = Inr ns
     \<and> (\<forall>visitor s. for_each this visitor h s = Inr (fold visitor ns s))
     \<and> hd ns = root_node (type' this) (instance' this)
     \<and> distinct ns
     \<and> set ns = {n. sub_instance h (root_node (type' this) (instance' this)) n}
     \<and> (\<forall>h'. (\<forall>n\<in>set ns. cells h' (node_instance n) = cells h (node_instance n))
            \<longrightarrow> (\<forall>visitor s. for_each this visitor h' s = for_each this visitor h s))"
proof -
  let ?T = "type' this" and ?r = "root_node (type' this) (instance' this)"
  from assms(1) obtain ns where ns: "document_order ?T ?r h = Inr ns"
    using document_order_total [of ?T h ?r] by (auto simp: root_node_def)
  have ty: "node_type ?r = ?T" by (simp add: root_node_def)
  have fe: "for_each this visitor g s =
      (case document_order ?T ?r g of Inl e \<Rightarrow> Inl e | Inr ms \<Rightarrow> Inr (fold visitor ms s))"
    for visitor :: "InstanceNode \<Rightarrow> 's \<Rightarrow> 's" and g s
    by (simp add: for_each_def for_each_instance_document_order)
  have 1: "\<forall>visitor s. for_each this visitor h s = Inr (fold visitor ns s)"
    by (simp add: fe ns)
  have 2: "hd ns = ?r" using document_order_root_first [OF ns] by auto
  have 3: "distinct ns" using document_order_distinct [OF ns] assms(2) ty by simp
  have 4: "set ns = {n. sub_instance h ?r n}"
    using document_order_sub_instance [OF ns] document_order_complete [of h ?r _ ns] ns ty
    by auto
  have 5: "\<forall>h'. (\<forall>n\<in>set ns. cells h' (node_instance n) = cells h (node_instance n))
            \<longrightarrow> (\<forall>visitor s. for_each this visitor h' s = for_each this visitor h s)"
    using document_order_unmodified [OF ns] by (simp add: fe ns)
  from ns 1 2 3 4 5 show ?thesis by blast
qed

theorem for_each_document_order_witness:
  "constructed (type' track1) track1_heap (instance' track1)
   \<and> distinct_members (type' track1)
   \<and> for_each track1 (\<lambda>n acc. acc @ [node_instance n]) track1_heap [] = Inr [4, 4, 8, 40]"
proof -
  have c: "constructed (type' track1) track1_heap (instance' track1)"
    by (simp add: track1_eval) (simp add: Track_def track1_eval)
  have d: "distinct_members (type' track1)"
    by (simp add: track1_eval) (simp add: Track_def)
  from for_each_document_order [OF c d] obtain ns where
    ns: "document_order (type' track1) (root_node (type' track1) (instance' track1)) track1_heap
           = Inr ns"
      "\<forall>(visitor :: InstanceNode \<Rightarrow> nat list \<Rightarrow> nat list) s.
         for_each track1 visitor track1_heap s = Inr (fold visitor ns s)"
    by blast
  from ns(1) have "map node_instance ns = [4, 4, 8, 40]"
    by (simp add: track1_eval) (auto simp: Track_def track1_eval root_node_def member_node_def
        element_node_def)
  have "fold (\<lambda>n acc. acc @ [node_instance n]) ns acc = acc @ map node_instance ns" for acc
    by (induction ns arbitrary: acc) auto
  with ns(2) \<open>map node_instance ns = [4, 4, 8, 40]\<close>
  have "for_each track1 (\<lambda>n acc. acc @ [node_instance n]) track1_heap [] = Inr [4, 4, 8, 40]"
    by simp
  with c d show ?thesis by simp
qed

subsection \<open>Copies are isolated\<close>

lemma foldM_invariant:
  assumes "foldM f xs s = Inr s'" and "P s"
    and "\<And>x s s'. x \<in> set xs \<Longrightarrow> P s \<Longrightarrow> f x s = Inr s' \<Longrightarrow> P s'"
  shows "P s'"
  using assms
proof (induction xs arbitrary: s)
  case Nil
  then show ?case by simp
next
  case (Cons x xs)
  from Cons.prems(1) obtain s1 where s1: "f x s = Inr s1" "foldM f xs s1 = Inr s'"
    by (cases "f x s") auto
  have "P s1" using Cons.prems(3) [of x s s1] Cons.prems(2) s1(1) by simp
  show ?case
  proof (rule Cons.IH [OF s1(2) \<open>P s1\<close>])
    fix y t t' assume "y \<in> set xs" "P t" "f y t = Inr t'"
    then show "P t'" using Cons.prems(3) [of y t t'] by simp
  qed
qed

lemma kept_store:
  "kept N h0 h \<Longrightarrow> N \<le> p \<Longrightarrow> (\<And>blk k. c = SequenceInstance (Some blk) k \<Longrightarrow> N \<le> blk)
    \<Longrightarrow> kept N h0 (store p c h)"
  by (auto simp: kept_def agree_below_def upper_closed_def store_def)

lemma kept_erase: "kept N h0 h \<Longrightarrow> N \<le> p \<Longrightarrow> kept N h0 (erase p h)"
  by (auto simp: kept_def agree_below_def upper_closed_def erase_def)

lemma kept_new_array:
  "kept N h0 h \<Longrightarrow> new_array n h = (p, h1) \<Longrightarrow> kept N h0 h1 \<and> N \<le> p"
  by (auto simp: kept_def agree_below_def upper_closed_def new_array_def)

lemma kept_delete_array:
  "kept N h0 h \<Longrightarrow> N \<le> p \<Longrightarrow> delete_array p h = Inr h1 \<Longrightarrow> kept N h0 h1"
  by (auto simp: kept_def agree_below_def upper_closed_def delete_array_def
      split: option.splits if_splits)

lemma kept_header:
  "kept N h0 h \<Longrightarrow> N \<le> p \<Longrightarrow> cells h p = Some (SequenceInstance (Some blk) k) \<Longrightarrow> N \<le> blk"
  by (auto simp: kept_def upper_closed_def)

lemma copy_instance_kept:
  "copy_instance T dst src h = Inr h' \<Longrightarrow> N \<le> dst \<Longrightarrow> kept N h0 h \<Longrightarrow> kept N h0 h'"
proof (induction T dst src h arbitrary: h' rule: copy_instance.induct)
  case (1 a dst src h)
  then show ?case
    by (auto split: option.splits cell.splits if_splits intro!: kept_store)
next
  case (2 dst src h)
  then show ?case
    by (auto split: option.splits cell.splits scalar.splits intro!: kept_store)
next
  case (3 t b dst src h)
  from "3.prems"(1) obtain sblk n where
    hdr: "cells h src = Some (SequenceInstance sblk n)"
    by (auto split: option.splits cell.splits)
  obtain blk h1 where na: "new_array (b * memory_size t) h = (blk, h1)"
    by (cases "new_array (b * memory_size t) h")
  from kept_new_array [OF "3.prems"(3) na] have k1: "kept N h0 h1" and blk: "N \<le> blk"
    by simp_all
  show ?case
  proof (cases sblk)
    case None
    with "3.prems"(1) hdr na have "h' = store dst (SequenceInstance (Some blk) 0) h1"
      by simp
    with k1 blk "3.prems"(2) show ?thesis by (auto intro!: kept_store)
  next
    case (Some sb)
    with "3.prems"(1) hdr na obtain h2 where
      h2: "foldM (\<lambda>i. copy_instance t (blk + i * memory_size t) (sb + i * memory_size t))
             [0..<n] h1 = Inr h2"
      and h': "h' = store dst (SequenceInstance (Some blk) n) h2"
      by (auto split: sum.splits)
    from h2 k1 have "kept N h0 h2"
    proof (rule foldM_invariant)
      fix i s s' assume "i \<in> set [0..<n]" "kept N h0 s"
        "copy_instance t (blk + i * memory_size t) (sb + i * memory_size t) s = Inr s'"
      then show "kept N h0 s'"
        using "3.IH" [OF hdr refl na [symmetric] Some, of i s s'] blk by simp
    qed
    with h' blk "3.prems"(2) show ?thesis by (auto intro!: kept_store)
  qed
next
  case (4 n ms dst src h)
  from "4.prems"(1) have
    "foldM (\<lambda>m. copy_instance (member_type m) (dst + member_offset m) (src + member_offset m))
       ms h = Inr h'"
    by simp
  then show ?case using "4.prems"(3)
  proof (rule foldM_invariant)
    fix m s s' assume "m \<in> set ms" "kept N h0 s"
      "copy_instance (member_type m) (dst + member_offset m) (src + member_offset m) s = Inr s'"
    then show "kept N h0 s'"
      using "4.IH" [of m s s'] "4.prems"(2) by simp
  qed
qed

lemma destroy_instance_kept:
  "destroy_instance T p h = Inr h' \<Longrightarrow> N \<le> p \<Longrightarrow> kept N h0 h \<Longrightarrow> kept N h0 h'"
proof (induction T p h arbitrary: h' rule: destroy_instance.induct)
  case (1 a p h)
  then show ?case by simp
next
  case (2 p h)
  then show ?case
    by (auto split: option.splits cell.splits scalar.splits intro!: kept_erase)
next
  case (3 t b p h)
  from "3.prems"(1) obtain ob n where hdr: "cells h p = Some (SequenceInstance ob n)"
    by (auto split: option.splits cell.splits)
  show ?case
  proof (cases ob)
    case None
    with "3.prems"(1) hdr have "h' = erase p h" by simp
    with "3.prems" show ?thesis by (simp add: kept_erase)
  next
    case (Some blk)
    with "3.prems"(1) hdr obtain h1 h2 where
      h1: "foldM (\<lambda>i. destroy_instance t (blk + i * memory_size t)) [0..<n] h = Inr h1"
      and h2: "delete_array blk h1 = Inr h2" and h': "h' = erase p h2"
      by (auto split: sum.splits)
    from kept_header [OF "3.prems"(3,2)] hdr Some have blk: "N \<le> blk" by simp
    from h1 "3.prems"(3) have "kept N h0 h1"
    proof (rule foldM_invariant)
      fix i s s' assume "i \<in> set [0..<n]" "kept N h0 s"
        "destroy_instance t (blk + i * memory_size t) s = Inr s'"
      then show "kept N h0 s'"
        using "3.IH" [OF hdr refl Some, of i s s'] blk by simp
    qed
    from kept_delete_array [OF this blk h2] h' "3.prems"(2) show ?thesis
      by (simp add: kept_erase)
  qed
next
  case (4 n ms p h)
  from "4.prems"(1) have
    "foldM (\<lambda>m. destroy_instance (member_type m) (p + member_offset m)) ms h = Inr h'"
    by simp
  then show ?case using "4.prems"(3)
  proof (rule foldM_invariant)
    fix m s s' assume "m \<in> set ms" "kept N h0 s"
      "destroy_instance (member_type m) (p + member_offset m) s = Inr s'"
    then show "kept N h0 s'"
      using "4.IH" [of m s s'] "4.prems"(2) by simp
  qed
qed

lemma push_instance_kept:
  assumes "push_instance T p v h = Inr (e, h')" and "N \<le> p" and "kept N h0 h"
  shows "kept N h0 h'"
proof (cases T)
  case (PrimitiveType a)
  with assms show ?thesis by simp
next
  case StringType
  with assms show ?thesis by simp
next
  case (SequenceType t b)
  from assms(1) SequenceType obtain ob n where hdr: "cells h p = Some (SequenceInstance ob n)"
    by (auto split: option.splits cell.splits)
  show ?thesis
  proof (cases ob)
    case None
    with assms SequenceType hdr show ?thesis by simp
  next
    case (Some blk)
    from kept_header [OF assms(3,2)] hdr Some have blk: "N \<le> blk" by simp
    show ?thesis
    proof (cases "n < b")
      case True
      with assms(1) SequenceType hdr Some obtain h1 where
        h1: "copy_instance t (blk + n * memory_size t) v h = Inr h1"
        and h': "h' = store p (SequenceInstance (Some blk) (Suc n)) h1"
        by (auto split: sum.splits)
      from copy_instance_kept [OF h1 _ assms(3)] blk have "kept N h0 h1" by simp
      with h' blk assms(2) show ?thesis by (auto intro!: kept_store)
    next
      case False
      with assms SequenceType hdr Some show ?thesis by simp
    qed
  qed
next
  case (StructType n ms)
  with assms show ?thesis by simp
qed

lemma value_set_kept:
  "value_set w t h = Inr h' \<Longrightarrow> N \<le> instance' w \<Longrightarrow> kept N h0 h \<Longrightarrow> kept N h0 h'"
  by (auto simp: value_set_def split: if_splits sum.splits
      dest!: destroy_instance_kept copy_instance_kept)

lemma string_set_kept:
  "string_set w t h = Inr h' \<Longrightarrow> N \<le> instance' w \<Longrightarrow> kept N h0 h \<Longrightarrow> kept N h0 h'"
  by (auto simp: string_set_def split: if_splits sum.splits
      dest!: destroy_instance_kept copy_instance_kept)

lemma push_kept:
  "push w t h = Inr (w', h') \<Longrightarrow> N \<le> instance' w \<Longrightarrow> kept N h0 h \<Longrightarrow> kept N h0 h'"
  by (auto simp: push_def split: if_splits sum.splits dest!: push_instance_kept)

lemma push_data_kept:
  "push_data w d h = Inr (w', h') \<Longrightarrow> N \<le> instance' w \<Longrightarrow> kept N h0 h \<Longrightarrow> kept N h0 h'"
  by (auto simp: push_data_def split: if_splits sum.splits dest!: push_instance_kept)

lemma assign_kept:
  "assign w d h = Inr (w', h') \<Longrightarrow> N \<le> instance' w \<Longrightarrow> kept N h0 h \<Longrightarrow> kept N h0 h'"
  by (auto simp: assign_def split: if_splits sum.splits
      dest!: destroy_instance_kept copy_instance_kept)

lemma mutates_kept:
  "mutates N h h' \<Longrightarrow> kept N h0 h \<Longrightarrow> kept N h0 h'"
  by (induction rule: mutates.induct)
     (auto intro: value_set_kept string_set_kept push_kept push_data_kept assign_kept)

lemma snapshot_frame:
  "(\<And>x. x \<in> set (leaves T p) \<union> set (elems T h p) \<Longrightarrow> cells h' x = cells h x)
    \<Longrightarrow> snapshot T h' p = snapshot T h p \<and> elems T h' p = elems T h p"
proof (induction T h p rule: elems.induct)
  case (1 a h p)
  then show ?case by simp
next
  case (2 h p)
  then show ?case by simp
next
  case (3 t b h p)
  have hdr: "cells h' p = cells h p" using "3.prems" by simp
  show ?case
  proof (cases "cells h p")
    case None
    with hdr show ?thesis by simp
  next
    case (Some c)
    show ?thesis
    proof (cases c)
      case (Object v)
      with Some hdr show ?thesis by simp
    next
      case (SequenceInstance ob n)
      show ?thesis
      proof (cases ob)
        case None
        with Some SequenceInstance hdr show ?thesis by simp
      next
        case (Some blk)
        with \<open>cells h p = Some c\<close> SequenceInstance
        have h: "cells h p = Some (SequenceInstance (Some blk) n)" by simp
        have "snapshot t h' (blk + i * memory_size t) = snapshot t h (blk + i * memory_size t)
            \<and> elems t h' (blk + i * memory_size t) = elems t h (blk + i * memory_size t)"
          if "i \<in> set [0..<n]" for i
        proof (rule "3.IH" [OF h refl refl that])
          fix x assume "x \<in> set (leaves t (blk + i * memory_size t))
              \<union> set (elems t h (blk + i * memory_size t))"
          with that h have "x \<in> set (elems (SequenceType t b) h p)" by auto
          then show "cells h' x = cells h x" using "3.prems" by blast
        qed
        note each = this
        have m1: "map (\<lambda>i. snapshot t h' (blk + i * memory_size t)) [0..<n]
            = map (\<lambda>i. snapshot t h (blk + i * memory_size t)) [0..<n]"
          by (rule map_cong) (simp_all add: each)
        have m2: "map (\<lambda>i. leaves t (blk + i * memory_size t)
                @ elems t h' (blk + i * memory_size t)) [0..<n]
            = map (\<lambda>i. leaves t (blk + i * memory_size t)
                @ elems t h (blk + i * memory_size t)) [0..<n]"
          by (rule map_cong) (simp_all add: each)
        show ?thesis
          using h hdr by (simp add: m1 m2)
      qed
    qed
  qed
next
  case (4 nm ms h p)
  have "snapshot (member_type m) h' (p + member_offset m)
          = snapshot (member_type m) h (p + member_offset m)
      \<and> elems (member_type m) h' (p + member_offset m)
          = elems (member_type m) h (p + member_offset m)"
    if "m \<in> set ms" for m
  proof (rule "4.IH" [OF that])
    fix x assume "x \<in> set (leaves (member_type m) (p + member_offset m))
        \<union> set (elems (member_type m) h (p + member_offset m))"
    with that have "x \<in> set (leaves (StructType nm ms) p) \<union> set (elems (StructType nm ms) h p)"
      by auto
    then show "cells h' x = cells h x" using "4.prems" by blast
  qed
  note each = this
  have m1: "map (\<lambda>m. snapshot (member_type m) h' (p + member_offset m)) ms
      = map (\<lambda>m. snapshot (member_type m) h (p + member_offset m)) ms"
    by (rule map_cong) (simp_all add: each)
  have m2: "map (\<lambda>m. elems (member_type m) h' (p + member_offset m)) ms
      = map (\<lambda>m. elems (member_type m) h (p + member_offset m)) ms"
    by (rule map_cong) (simp_all add: each)
  show ?case
    by (simp add: m1 m2)
qed

lemma owns_below:
  assumes "owns a h" and "x \<in> set (leaves (type' a) (instance' a)) \<union> set (elems (type' a) h (instance' a))"
  shows "x < brk h"
  using assms by (auto simp: owns_def list_all_iff)

lemma snapshot_same_cells:
  "cells h' = cells h \<Longrightarrow> snapshot T h' p = snapshot T h p \<and> elems T h' p = elems T h p"
  by (rule snapshot_frame) simp

lemma leaves_shift: "leaves T (p + d) = map (\<lambda>x. x + d) (leaves T p)"
proof (induction T p arbitrary: d rule: leaves.induct)
  case (4 nm ms p)
  have "leaves (member_type m) (p + d + member_offset m)
      = map (\<lambda>x. x + d) (leaves (member_type m) (p + member_offset m))" if "m \<in> set ms" for m
    using "4.IH" [OF that, of d] by (simp add: add.commute add.left_commute)
  then show ?case by (simp add: map_concat comp_def cong: map_cong)
qed simp_all

lemma leaves_ge: "x \<in> set (leaves T p) \<Longrightarrow> p \<le> x"
  by (induction T p rule: leaves.induct) fastforce+

lemma constructed_frame:
  "(\<And>x. x \<in> set (leaves T p) \<union> set (elems T h p) \<Longrightarrow> cells h' x = cells h x)
    \<Longrightarrow> constructed T h' p = constructed T h p"
proof (induction T h p rule: elems.induct)
  case (1 a h p)
  then show ?case by simp
next
  case (2 h p)
  then show ?case by simp
next
  case (3 t b h p)
  have hdr: "cells h' p = cells h p" using "3.prems" by simp
  show ?case
  proof (cases "cells h p")
    case None
    with hdr show ?thesis by simp
  next
    case (Some c)
    show ?thesis
    proof (cases c)
      case (Object v)
      with Some hdr show ?thesis by simp
    next
      case (SequenceInstance ob n)
      show ?thesis
      proof (cases ob)
        case None
        with Some SequenceInstance hdr show ?thesis by simp
      next
        case (Some blk)
        with \<open>cells h p = Some c\<close> SequenceInstance
        have h: "cells h p = Some (SequenceInstance (Some blk) n)" by simp
        have "constructed t h' (blk + i * memory_size t) = constructed t h (blk + i * memory_size t)"
          if "i \<in> set [0..<n]" for i
        proof (rule "3.IH" [OF h refl refl that])
          fix x assume "x \<in> set (leaves t (blk + i * memory_size t))
              \<union> set (elems t h (blk + i * memory_size t))"
          with that h have "x \<in> set (elems (SequenceType t b) h p)" by auto
          then show "cells h' x = cells h x" using "3.prems" by blast
        qed
        then show ?thesis
          using h hdr by (simp add: list_all_iff)
      qed
    qed
  qed
next
  case (4 nm ms h p)
  have "constructed (member_type m) h' (p + member_offset m)
          = constructed (member_type m) h (p + member_offset m)"
    if "m \<in> set ms" for m
  proof (rule "4.IH" [OF that])
    fix x assume "x \<in> set (leaves (member_type m) (p + member_offset m))
        \<union> set (elems (member_type m) h (p + member_offset m))"
    with that have "x \<in> set (leaves (StructType nm ms) p) \<union> set (elems (StructType nm ms) h p)"
      by auto
    then show "cells h' x = cells h x" using "4.prems" by blast
  qed
  then show ?case by (simp add: list_all_iff)
qed

lemma those_eq_None: "those xs = None \<longleftrightarrow> None \<in> set xs"
  by (induction xs) (auto split: option.splits)

lemma constructed_snapshot: "constructed T h p \<Longrightarrow> snapshot T h p \<noteq> None"
proof (induction T h p rule: constructed.induct)
  case (1 a h p)
  then show ?case by (auto split: option.splits cell.splits)
next
  case (2 h p)
  then show ?case by (auto split: option.splits cell.splits scalar.splits)
next
  case (3 t b h p)
  show ?case
  proof (cases "cells h p")
    case None
    with "3.prems" show ?thesis by simp
  next
    case (Some c)
    show ?thesis
    proof (cases c)
      case (Object v)
      with Some "3.prems" show ?thesis by simp
    next
      case (SequenceInstance ob n)
      show ?thesis
      proof (cases ob)
        case None
        with Some SequenceInstance "3.prems" show ?thesis by simp
      next
        case (Some blk)
        with \<open>cells h p = Some c\<close> SequenceInstance
        have h: "cells h p = Some (SequenceInstance (Some blk) n)" by simp
        have "snapshot t h (blk + i * memory_size t) \<noteq> None" if "i \<in> set [0..<n]" for i
          using "3.IH" [OF h refl refl that] "3.prems" h that by (simp add: list_all_iff)
        then have "those (map (\<lambda>i. snapshot t h (blk + i * memory_size t)) [0..<n]) \<noteq> None"
          unfolding those_eq_None by (auto simp: image_iff) (metis option.distinct(1))
        with h show ?thesis by simp
      qed
    qed
  qed
next
  case (4 nm ms h p)
  have "snapshot (member_type m) h (p + member_offset m) \<noteq> None" if "m \<in> set ms" for m
    using "4.IH" [OF that] "4.prems" that by (simp add: list_all_iff)
  then have "those (map (\<lambda>m. snapshot (member_type m) h (p + member_offset m)) ms) \<noteq> None"
    unfolding those_eq_None by (auto simp: image_iff) (metis option.distinct(1))
  then show ?case by simp
qed

lemma copy_instance_Cons:
  "copy_instance (StructType nm (m # ms)) dst src h =
     (case copy_instance (member_type m) (dst + member_offset m) (src + member_offset m) h of
        Inl e \<Rightarrow> Inl e
      | Inr h1 \<Rightarrow> copy_instance (StructType nm ms) dst src h1)"
  by (simp split: sum.splits)

lemma snapshot_Cons_eq:
  assumes "snapshot (member_type m) h' (q + member_offset m)
      = snapshot (member_type m) h (p + member_offset m)"
    and "snapshot (StructType nm ms) h' q = snapshot (StructType nm ms) h p"
  shows "snapshot (StructType nm (m # ms)) h' q = snapshot (StructType nm (m # ms)) h p"
proof -
  from assms(2) have
    "those (map (\<lambda>m. snapshot (member_type m) h' (q + member_offset m)) ms)
      = those (map (\<lambda>m. snapshot (member_type m) h (p + member_offset m)) ms)"
    by (cases "those (map (\<lambda>m. snapshot (member_type m) h' (q + member_offset m)) ms)";
        cases "those (map (\<lambda>m. snapshot (member_type m) h (p + member_offset m)) ms)") simp_all
  with assms(1) show ?thesis
    by (cases "snapshot (member_type m) h (p + member_offset m)") simp_all
qed

lemma copy_instance_struct_step:
  assumes A: "\<And>h. copyable (member_type m) (dst + member_offset m) (src + member_offset m) h
        \<Longrightarrow> \<exists>h'. copy_instance (member_type m) (dst + member_offset m)
                    (src + member_offset m) h = Inr h'
              \<and> copied (member_type m) (dst + member_offset m) (src + member_offset m) h h'"
    and B: "\<And>h. copyable (StructType nm ms) dst src h
        \<Longrightarrow> \<exists>h'. copy_instance (StructType nm ms) dst src h = Inr h'
              \<and> copied (StructType nm ms) dst src h h'"
    and cp: "copyable (StructType nm (m # ms)) dst src h"
  shows "\<exists>h'. copy_instance (StructType nm (m # ms)) dst src h = Inr h'
              \<and> copied (StructType nm (m # ms)) dst src h h'"
proof -
  let ?T1 = "member_type m" and ?d1 = "dst + member_offset m" and ?s1 = "src + member_offset m"
  let ?T2 = "StructType nm ms"
  let ?L1s = "set (leaves ?T1 ?s1)" and ?L1d = "set (leaves ?T1 ?d1)"
  let ?L2s = "set (leaves ?T2 src)" and ?L2d = "set (leaves ?T2 dst)"
  let ?E1 = "set (elems ?T1 h ?s1)" and ?E2 = "set (elems ?T2 h src)"
  from cp have c1: "constructed ?T1 h ?s1" and c2: "constructed ?T2 h src"
    and w1: "well_laid ?T1" and w2: "well_laid ?T2"
    and dd1: "distinct (leaves ?T1 ?d1)" and dd2: "distinct (leaves ?T2 dst)"
    and x12: "?L1d \<inter> ?L2d = {}"
    and lb1: "\<And>x. x \<in> ?L1d \<Longrightarrow> x < brk h" and lb2: "\<And>x. x \<in> ?L2d \<Longrightarrow> x < brk h"
    and r1: "\<And>x. x \<in> ?L1s \<union> ?E1 \<Longrightarrow> x < brk h \<and> x \<notin> ?L1d \<and> x \<notin> ?L2d"
    and r2: "\<And>x. x \<in> ?L2s \<union> ?E2 \<Longrightarrow> x < brk h \<and> x \<notin> ?L1d \<and> x \<notin> ?L2d"
    by (auto simp: copyable_def)
  have "copyable ?T1 ?d1 ?s1 h"
    unfolding copyable_def using c1 w1 dd1 lb1 r1 by blast
  from A [OF this] obtain h1 where
    m1: "copy_instance ?T1 ?d1 ?s1 h = Inr h1" and ok1: "copied ?T1 ?d1 ?s1 h h1"
    by blast
  from ok1 have sn1: "snapshot ?T1 h1 ?d1 = snapshot ?T1 h ?s1"
    and f1: "\<And>x. x < brk h \<Longrightarrow> x \<notin> ?L1d \<Longrightarrow> cells h1 x = cells h x"
    and b1: "brk h \<le> brk h1"
    and e1: "\<And>x. x \<in> set (elems ?T1 h1 ?d1) \<Longrightarrow> brk h \<le> x \<and> x < brk h1"
    by (auto simp: copied_def)
  have same2: "cells h1 x = cells h x" if "x \<in> ?L2s \<union> ?E2" for x
    using r2 [OF that] f1 by simp
  have s2: "snapshot ?T2 h1 src = snapshot ?T2 h src \<and> elems ?T2 h1 src = elems ?T2 h src"
    by (rule snapshot_frame) (rule same2)
  have c2': "constructed ?T2 h1 src"
    using constructed_frame [of ?T2 src h h1] same2 c2 by blast
  have "copyable ?T2 dst src h1"
    unfolding copyable_def
  proof (intro conjI ballI)
    show "constructed ?T2 h1 src" by (rule c2')
    show "well_laid ?T2" by (rule w2)
    show "distinct (leaves ?T2 dst)" by (rule dd2)
  next
    fix x assume "x \<in> ?L2d"
    with lb2 b1 show "x < brk h1" by fastforce
  next
    fix x assume "x \<in> ?L2s \<union> set (elems ?T2 h1 src)"
    with s2 have x: "x \<in> ?L2s \<union> ?E2" by simp
    from r2 [OF x] b1 show "x < brk h1" by simp
    from r2 [OF x] show "x \<notin> ?L2d" by simp
  qed
  from B [OF this] obtain h' where
    m2: "copy_instance ?T2 dst src h1 = Inr h'" and ok2: "copied ?T2 dst src h1 h'"
    by blast
  from ok2 have sn2: "snapshot ?T2 h' dst = snapshot ?T2 h1 src"
    and f2: "\<And>x. x < brk h1 \<Longrightarrow> x \<notin> ?L2d \<Longrightarrow> cells h' x = cells h1 x"
    and b2: "brk h1 \<le> brk h'"
    and e2: "\<And>x. x \<in> set (elems ?T2 h' dst) \<Longrightarrow> brk h1 \<le> x \<and> x < brk h'"
    by (auto simp: copied_def)
  have same1: "cells h' x = cells h1 x" if "x \<in> ?L1d \<union> set (elems ?T1 h1 ?d1)" for x
  proof (rule f2)
    from that show "x < brk h1"
    proof
      assume "x \<in> ?L1d"
      with lb1 b1 show ?thesis by fastforce
    next
      assume "x \<in> set (elems ?T1 h1 ?d1)"
      with e1 show ?thesis by simp
    qed
    from that show "x \<notin> ?L2d"
    proof
      assume "x \<in> ?L1d"
      with x12 show ?thesis by blast
    next
      assume "x \<in> set (elems ?T1 h1 ?d1)"
      with e1 [of x] lb2 [of x] show ?thesis by fastforce
    qed
  qed
  have s1: "snapshot ?T1 h' ?d1 = snapshot ?T1 h1 ?d1 \<and> elems ?T1 h' ?d1 = elems ?T1 h1 ?d1"
    by (rule snapshot_frame) (rule same1)
  have "copy_instance (StructType nm (m # ms)) dst src h = Inr h'"
    unfolding copy_instance_Cons using m1 m2 by simp
  moreover have "snapshot (StructType nm (m # ms)) h' dst = snapshot (StructType nm (m # ms)) h src"
  proof (rule snapshot_Cons_eq)
    show "snapshot ?T1 h' ?d1 = snapshot ?T1 h ?s1" using s1 sn1 by simp
    show "snapshot ?T2 h' dst = snapshot ?T2 h src" using sn2 s2 by (simp del: snapshot.simps)
  qed
  moreover have "snapshot (StructType nm (m # ms)) h src \<noteq> None"
    using cp by (intro constructed_snapshot) (simp add: copyable_def)
  moreover have "cells h' x = cells h x"
    if "x < brk h" "x \<notin> set (leaves (StructType nm (m # ms)) dst)" for x
  proof -
    from that have "x \<notin> ?L1d" "x \<notin> ?L2d" by auto
    with that(1) b1 f1 [of x] f2 [of x] show ?thesis by simp
  qed
  moreover have "brk h \<le> brk h'" using b1 b2 by simp
  moreover have "brk h \<le> x \<and> x < brk h'"
    if "x \<in> set (elems (StructType nm (m # ms)) h' dst)" for x
  proof -
    from that s1 have "x \<in> set (elems ?T1 h1 ?d1) \<or> x \<in> set (elems ?T2 h' dst)" by auto
    then show ?thesis
    proof
      assume "x \<in> set (elems ?T1 h1 ?d1)"
      with e1 [of x] b2 show ?thesis by simp
    next
      assume "x \<in> set (elems ?T2 h' dst)"
      with e2 [of x] b1 show ?thesis by simp
    qed
  qed
  ultimately show ?thesis
    unfolding copied_def by blast
qed

lemma foldM_snoc:
  "foldM f (xs @ [x]) s = (case foldM f xs s of Inl e \<Rightarrow> Inl e | Inr s' \<Rightarrow> f x s')"
  by (induction xs arbitrary: s) (auto split: sum.splits)

lemma fits_range:
  assumes "fits t" and "x \<in> set (leaves t p)"
  shows "p \<le> x \<and> x < p + memory_size t"
proof -
  have "leaves t p = map (\<lambda>x. x + p) (leaves t 0)"
    using leaves_shift [of t 0 p] by simp
  with assms show ?thesis by (auto simp: fits_def list_all_iff)
qed

lemma fits_distinct: "fits t \<Longrightarrow> distinct (leaves t p)"
proof -
  assume "fits t"
  moreover have "leaves t p = map (\<lambda>x. x + p) (leaves t 0)"
    using leaves_shift [of t 0 p] by simp
  ultimately show ?thesis by (simp add: fits_def distinct_map inj_on_def)
qed

lemma copy_elements:
  fixes t :: DynamicType and blk sb B n :: nat and h h1 :: heap
  assumes A: "\<And>i g. i < n
        \<Longrightarrow> copyable t (blk + i * memory_size t) (sb + i * memory_size t) g
        \<Longrightarrow> \<exists>g'. copy_instance t (blk + i * memory_size t) (sb + i * memory_size t) g = Inr g'
              \<and> copied t (blk + i * memory_size t) (sb + i * memory_size t) g g'"
    and ft: "fits t" and wl: "well_laid t"
    and cons: "\<And>i. i < n \<Longrightarrow> constructed t h (sb + i * memory_size t)"
    and reads: "\<And>i x. i < n \<Longrightarrow> x \<in> set (leaves t (sb + i * memory_size t))
          \<union> set (elems t h (sb + i * memory_size t)) \<Longrightarrow> x < B"
    and h1: "\<And>x. x < B \<Longrightarrow> cells h1 x = cells h x"
    and blk: "B \<le> blk" "blk + n * memory_size t \<le> brk h1"
    and k: "k \<le> n"
  shows "\<exists>g. foldM (\<lambda>i. copy_instance t (blk + i * memory_size t) (sb + i * memory_size t))
            [0..<k] h1 = Inr g
       \<and> (\<forall>j<k. snapshot t g (blk + j * memory_size t) = snapshot t h (sb + j * memory_size t)
              \<and> (\<forall>x\<in>set (elems t g (blk + j * memory_size t)). brk h1 \<le> x \<and> x < brk g))
       \<and> (\<forall>x. x < B \<longrightarrow> cells g x = cells h x) \<and> brk h1 \<le> brk g"
  using k
proof (induction k)
  case 0
  then show ?case using h1 by simp
next
  case (Suc k)
  define D where "D i = blk + i * memory_size t" for i
  define S where "S i = sb + i * memory_size t" for i
  from Suc obtain g where
    fg: "foldM (\<lambda>i. copy_instance t (D i) (S i)) [0..<k] h1 = Inr g"
    and prev: "\<And>j. j < k \<Longrightarrow> snapshot t g (D j) = snapshot t h (S j)"
      "\<And>j x. j < k \<Longrightarrow> x \<in> set (elems t g (D j)) \<Longrightarrow> brk h1 \<le> x \<and> x < brk g"
    and low: "\<And>x. x < B \<Longrightarrow> cells g x = cells h x" and bg: "brk h1 \<le> brk g"
    unfolding D_def S_def by auto
  from Suc.prems have kn: "k < n" by simp
  have slot: "D j \<le> x \<and> x < D j + memory_size t" if "x \<in> set (leaves t (D j))" for j x
    using fits_range [OF ft that] .
  have next_slot: "D j + memory_size t \<le> D i" if "j < i" for i j
  proof -
    from that have "Suc j * memory_size t \<le> i * memory_size t"
      by (intro mult_le_mono1) simp
    then show ?thesis by (simp add: D_def)
  qed
  have in_block: "D i + memory_size t \<le> brk h1" if "i < n" for i
  proof -
    from that have "Suc i * memory_size t \<le> n * memory_size t"
      by (intro mult_le_mono1) simp
    with blk(2) show ?thesis by (simp add: D_def)
  qed
  have DB: "B \<le> D i" for i using blk(1) by (simp add: D_def)
  have rd: "x < B" if "x \<in> set (leaves t (S k)) \<union> set (elems t h (S k))" for x
    using reads [OF kn] that by (simp add: S_def)
  have same_src: "cells g x = cells h x"
    if "x \<in> set (leaves t (S k)) \<union> set (elems t h (S k))" for x
    using low rd [OF that] by simp
  have sk: "snapshot t g (S k) = snapshot t h (S k) \<and> elems t g (S k) = elems t h (S k)"
    by (rule snapshot_frame) (rule same_src)
  have ck: "constructed t g (S k)"
    using constructed_frame [of t "S k" h g] same_src cons [OF kn] by (simp add: S_def)
  have "copyable t (D k) (S k) g"
    unfolding copyable_def
  proof (intro conjI ballI)
    show "constructed t g (S k)" by (rule ck)
    show "well_laid t" by (rule wl)
    show "distinct (leaves t (D k))" by (rule fits_distinct [OF ft])
  next
    fix x assume "x \<in> set (leaves t (D k))"
    with slot [of x k] in_block [OF kn] bg show "x < brk g" by simp
  next
    fix x assume "x \<in> set (leaves t (S k)) \<union> set (elems t g (S k))"
    with sk have x: "x \<in> set (leaves t (S k)) \<union> set (elems t h (S k))" by simp
    from rd [OF x] blk(1) in_block [OF kn] bg show "x < brk g" by (simp add: D_def)
    show "x \<notin> set (leaves t (D k))"
    proof
      assume "x \<in> set (leaves t (D k))"
      with slot [of x k] DB [of k] rd [OF x] show False by simp
    qed
  qed
  from A [OF kn, of g] this obtain g' where
    cg: "copy_instance t (D k) (S k) g = Inr g'" and ok: "copied t (D k) (S k) g g'"
    unfolding D_def S_def by blast
  from ok have snk: "snapshot t g' (D k) = snapshot t g (S k)"
    and fr: "\<And>x. x < brk g \<Longrightarrow> x \<notin> set (leaves t (D k)) \<Longrightarrow> cells g' x = cells g x"
    and bg': "brk g \<le> brk g'"
    and ek: "\<And>x. x \<in> set (elems t g' (D k)) \<Longrightarrow> brk g \<le> x \<and> x < brk g'"
    by (auto simp: copied_def)
  have keep: "snapshot t g' (D j) = snapshot t g (D j) \<and> elems t g' (D j) = elems t g (D j)"
    if "j < k" for j
  proof (rule snapshot_frame)
    fix x assume "x \<in> set (leaves t (D j)) \<union> set (elems t g (D j))"
    then show "cells g' x = cells g x"
    proof
      assume x: "x \<in> set (leaves t (D j))"
      from slot [OF x] next_slot [OF that] have xk: "x < D k" by simp
      show ?thesis
      proof (rule fr)
        from xk in_block [OF kn] bg show "x < brk g" by simp
        show "x \<notin> set (leaves t (D k))"
        proof
          assume "x \<in> set (leaves t (D k))"
          with slot [of x k] xk show False by simp
        qed
      qed
    next
      assume x: "x \<in> set (elems t g (D j))"
      from prev(2) [OF that x] have xb: "brk h1 \<le> x" "x < brk g" by simp_all
      show ?thesis
      proof (rule fr)
        show "x < brk g" by (rule xb(2))
        show "x \<notin> set (leaves t (D k))"
        proof
          assume "x \<in> set (leaves t (D k))"
          with slot [of x k] in_block [OF kn] xb(1) show False by simp
        qed
      qed
    qed
  qed
  have "foldM (\<lambda>i. copy_instance t (D i) (S i)) [0..<Suc k] h1 = Inr g'"
    using fg cg by (simp add: foldM_snoc)
  moreover have "snapshot t g' (D j) = snapshot t h (S j)
      \<and> (\<forall>x\<in>set (elems t g' (D j)). brk h1 \<le> x \<and> x < brk g')" if "j < Suc k" for j
  proof (cases "j = k")
    case True
    with snk sk ek bg show ?thesis by fastforce
  next
    case False
    with that have jk: "j < k" by simp
    from keep [OF jk] prev(1) [OF jk] prev(2) [OF jk] bg' show ?thesis by fastforce
  qed
  moreover have "cells g' x = cells h x" if "x < B" for x
  proof -
    have "cells g' x = cells g x"
    proof (rule fr)
      from that blk(1) in_block [OF kn] bg show "x < brk g" by (simp add: D_def)
      show "x \<notin> set (leaves t (D k))"
      proof
        assume "x \<in> set (leaves t (D k))"
        with slot [of x k] DB [of k] that show False by simp
      qed
    qed
    with low [OF that] show ?thesis by simp
  qed
  moreover have "brk h1 \<le> brk g'" using bg bg' by simp
  ultimately show ?case
    unfolding D_def S_def by blast
qed

lemma copy_instance_sequence:
  assumes IH: "\<And>sblk n blk h1 sb i g. cells h src = Some (SequenceInstance sblk n)
        \<Longrightarrow> (blk, h1) = new_array (b * memory_size t) h \<Longrightarrow> sblk = Some sb
        \<Longrightarrow> i \<in> set [0..<n]
        \<Longrightarrow> copyable t (blk + i * memory_size t) (sb + i * memory_size t) g
        \<Longrightarrow> \<exists>g'. copy_instance t (blk + i * memory_size t) (sb + i * memory_size t) g = Inr g'
              \<and> copied t (blk + i * memory_size t) (sb + i * memory_size t) g g'"
    and cp: "copyable (SequenceType t b) dst src h"
  shows "\<exists>h'. copy_instance (SequenceType t b) dst src h = Inr h'
              \<and> copied (SequenceType t b) dst src h h'"
proof -
  define B where "B = brk h"
  define h1 where "h1 = h\<lparr>blocks := (blocks h)(B \<mapsto> b * memory_size t),
    brk := B + max (b * memory_size t) 1\<rparr>"
  have na: "new_array (b * memory_size t) h = (B, h1)"
    by (simp add: new_array_def B_def h1_def)
  have c1: "cells h1 = cells h" and b1: "brk h1 = B + max (b * memory_size t) 1"
    by (simp_all add: h1_def)
  from cp have cs: "constructed (SequenceType t b) h src" and ft: "fits t" and wl: "well_laid t"
    and dlt: "dst < B" and slt: "src < B" and ne: "src \<noteq> dst"
    and el: "\<And>x. x \<in> set (elems (SequenceType t b) h src) \<Longrightarrow> x < B \<and> x \<noteq> dst"
    by (auto simp: copyable_def B_def)
  from cs obtain sblk n where hdr: "cells h src = Some (SequenceInstance sblk n)"
    by (auto split: option.splits cell.splits)
  show ?thesis
  proof (cases sblk)
    case None
    with cs hdr have n0: "n = 0" by simp
    let ?h' = "store dst (SequenceInstance (Some B) 0) h1"
    have "copy_instance (SequenceType t b) dst src h = Inr ?h'"
      using hdr None na by simp
    moreover have "copied (SequenceType t b) dst src h ?h'"
      using hdr None n0 ne by (simp add: copied_def store_def c1 b1 B_def)
    ultimately show ?thesis by blast
  next
    case (Some sb)
    with hdr have hd: "cells h src = Some (SequenceInstance (Some sb) n)" by simp
    from cs hd have nb: "n \<le> b"
      and cons: "\<And>i. i < n \<Longrightarrow> constructed t h (sb + i * memory_size t)"
      by (simp_all add: list_all_iff)
    have reads: "x < B" if "i < n"
      "x \<in> set (leaves t (sb + i * memory_size t)) \<union> set (elems t h (sb + i * memory_size t))"
      for i x
    proof -
      from that hd have "x \<in> set (elems (SequenceType t b) h src)" by auto
      from el [OF this] show ?thesis by simp
    qed
    have fit: "B + n * memory_size t \<le> brk h1"
    proof -
      from nb have "n * memory_size t \<le> b * memory_size t" by (rule mult_le_mono1)
      moreover have "b * memory_size t \<le> max (b * memory_size t) 1" by simp
      ultimately show ?thesis unfolding b1 by linarith
    qed
    have "\<exists>g. foldM (\<lambda>i. copy_instance t (B + i * memory_size t) (sb + i * memory_size t))
            [0..<n] h1 = Inr g
       \<and> (\<forall>j<n. snapshot t g (B + j * memory_size t) = snapshot t h (sb + j * memory_size t)
              \<and> (\<forall>x\<in>set (elems t g (B + j * memory_size t)). brk h1 \<le> x \<and> x < brk g))
       \<and> (\<forall>x. x < B \<longrightarrow> cells g x = cells h x) \<and> brk h1 \<le> brk g"
    proof (rule copy_elements [where B = B])
      fix i g assume "i < n"
        "copyable t (B + i * memory_size t) (sb + i * memory_size t) g"
      then show "\<exists>g'. copy_instance t (B + i * memory_size t) (sb + i * memory_size t) g = Inr g'
              \<and> copied t (B + i * memory_size t) (sb + i * memory_size t) g g'"
        using IH [OF hdr na [symmetric] Some, of i g] by simp
    next
      show "fits t" by (rule ft)
      show "well_laid t" by (rule wl)
      show "constructed t h (sb + i * memory_size t)" if "i < n" for i by (rule cons [OF that])
      show "x < B" if "i < n" "x \<in> set (leaves t (sb + i * memory_size t))
          \<union> set (elems t h (sb + i * memory_size t))" for i x
        by (rule reads [OF that])
      show "cells h1 x = cells h x" for x by (simp add: c1)
      show "B \<le> B" by simp
      show "B + n * memory_size t \<le> brk h1" by (rule fit)
      show "n \<le> n" by simp
    qed
    then obtain g where
      fg: "foldM (\<lambda>i. copy_instance t (B + i * memory_size t) (sb + i * memory_size t))
            [0..<n] h1 = Inr g"
      and sn: "\<And>j. j < n \<Longrightarrow> snapshot t g (B + j * memory_size t)
          = snapshot t h (sb + j * memory_size t)"
      and eg: "\<And>j x. j < n \<Longrightarrow> x \<in> set (elems t g (B + j * memory_size t))
          \<Longrightarrow> brk h1 \<le> x \<and> x < brk g"
      and low: "\<And>x. x < B \<Longrightarrow> cells g x = cells h x" and bg: "brk h1 \<le> brk g"
      by blast
    define h' where "h' = store dst (SequenceInstance (Some B) n) g"
    have ch': "cells h' x = cells g x" if "x \<noteq> dst" for x
      using that by (simp add: h'_def store_def)
    have hd': "cells h' dst = Some (SequenceInstance (Some B) n)" and bh': "brk h' = brk g"
      by (simp_all add: h'_def store_def)
    have lv: "B \<le> x \<and> x < brk h1" if "j < n" "x \<in> set (leaves t (B + j * memory_size t))"
      for j x
    proof -
      from that(1) have "Suc j * memory_size t \<le> n * memory_size t"
        by (intro mult_le_mono1) simp
      with fits_range [OF ft that(2)] fit show ?thesis by simp
    qed
    have keep: "snapshot t h' (B + j * memory_size t) = snapshot t g (B + j * memory_size t)
        \<and> elems t h' (B + j * memory_size t) = elems t g (B + j * memory_size t)"
      if "j < n" for j
    proof (rule snapshot_frame)
      fix x assume "x \<in> set (leaves t (B + j * memory_size t))
          \<union> set (elems t g (B + j * memory_size t))"
      then have "B \<le> x"
      proof
        assume "x \<in> set (leaves t (B + j * memory_size t))"
        from lv [OF that this] show ?thesis by simp
      next
        assume "x \<in> set (elems t g (B + j * memory_size t))"
        from eg [OF that this] b1 show ?thesis by simp
      qed
      with dlt show "cells h' x = cells g x" by (intro ch') simp
    qed
    have "copy_instance (SequenceType t b) dst src h = Inr h'"
      using hd na fg by (simp add: h'_def)
    moreover have "snapshot (SequenceType t b) h' dst = snapshot (SequenceType t b) h src"
    proof -
      have m: "map (\<lambda>i. snapshot t h' (B + i * memory_size t)) [0..<n]
          = map (\<lambda>i. snapshot t h (sb + i * memory_size t)) [0..<n]"
        by (rule map_cong) (simp_all add: keep sn)
      show ?thesis using hd hd' by (simp add: m)
    qed
    moreover have "snapshot (SequenceType t b) h src \<noteq> None"
      by (rule constructed_snapshot [OF cs])
    moreover have "cells h' x = cells h x" if "x < B" "x \<noteq> dst" for x
      using ch' [OF that(2)] low [OF that(1)] by simp
    moreover have "brk h \<le> brk h'" using bh' bg b1 by (simp add: B_def)
    moreover have "brk h \<le> x \<and> x < brk h'" if "x \<in> set (elems (SequenceType t b) h' dst)" for x
    proof -
      from that hd' obtain j where j: "j < n"
        and x: "x \<in> set (leaves t (B + j * memory_size t))
          \<union> set (elems t h' (B + j * memory_size t))"
        by auto
      from x keep [OF j] have "x \<in> set (leaves t (B + j * memory_size t))
          \<union> set (elems t g (B + j * memory_size t))" by simp
      then show ?thesis
      proof
        assume "x \<in> set (leaves t (B + j * memory_size t))"
        from lv [OF j this] bg bh' show ?thesis by (simp add: B_def)
      next
        assume "x \<in> set (elems t g (B + j * memory_size t))"
        from eg [OF j this] b1 bh' show ?thesis by (simp add: B_def)
      qed
    qed
    ultimately show ?thesis
      unfolding copied_def B_def by (simp del: snapshot.simps elems.simps copy_instance.simps)
  qed
qed

lemma copy_instance_correct:
  "copyable T dst src h
    \<Longrightarrow> \<exists>h'. copy_instance T dst src h = Inr h' \<and> copied T dst src h h'"
proof (induction T dst src h rule: copy_instance.induct)
  case (1 a dst src h)
  then obtain v where v: "cells h src = Some (Object v)" "ctype_of v = Arith a"
    by (auto simp: copyable_def split: option.splits cell.splits)
  from 1 have ne: "src \<noteq> dst" by (simp add: copyable_def)
  have "copy_instance (PrimitiveType a) dst src h = Inr (store dst (Object v) h)"
    using v by simp
  moreover have "copied (PrimitiveType a) dst src h (store dst (Object v) h)"
    using v ne by (simp add: copied_def store_def)
  ultimately show ?case by blast
next
  case (2 dst src h)
  then obtain s where s: "cells h src = Some (Object (StringV s))"
    by (auto simp: copyable_def split: option.splits cell.splits scalar.splits)
  from 2 have ne: "src \<noteq> dst" by (simp add: copyable_def)
  have "copy_instance StringType dst src h = Inr (store dst (Object (StringV s)) h)"
    using s by simp
  moreover have "copied StringType dst src h (store dst (Object (StringV s)) h)"
    using s ne by (simp add: copied_def store_def)
  ultimately show ?case by blast
next
  case (3 t b dst src h)
  show ?case
  proof (rule copy_instance_sequence)
    show "copyable (SequenceType t b) dst src h" by (rule "3.prems")
  next
    fix sblk n blk h1 sb i g
    assume "cells h src = Some (SequenceInstance sblk n)"
      "(blk, h1) = new_array (b * memory_size t) h" "sblk = Some sb" "i \<in> set [0..<n]"
      "copyable t (blk + i * memory_size t) (sb + i * memory_size t) g"
    then show "\<exists>g'. copy_instance t (blk + i * memory_size t) (sb + i * memory_size t) g = Inr g'
              \<and> copied t (blk + i * memory_size t) (sb + i * memory_size t) g g'"
      by (rule "3.IH" [OF _ refl])
  qed
next
  case (4 nm ms dst src h)
  have "\<exists>h'. copy_instance (StructType nm ms') dst src g = Inr h'
          \<and> copied (StructType nm ms') dst src g h'"
    if "set ms' \<subseteq> set ms" "copyable (StructType nm ms') dst src g" for ms' g
    using that
  proof (induction ms' arbitrary: g)
    case Nil
    then show ?case by (simp add: copied_def)
  next
    case (Cons m ms')
    show ?case
    proof (rule copy_instance_struct_step)
      fix g'
      assume "copyable (member_type m) (dst + member_offset m) (src + member_offset m) g'"
      then show "\<exists>h'. copy_instance (member_type m) (dst + member_offset m)
                    (src + member_offset m) g' = Inr h'
              \<and> copied (member_type m) (dst + member_offset m) (src + member_offset m) g' h'"
        using "4.IH" [of m g'] Cons.prems(1) by simp
    next
      fix g'
      assume "copyable (StructType nm ms') dst src g'"
      then show "\<exists>h'. copy_instance (StructType nm ms') dst src g' = Inr h'
              \<and> copied (StructType nm ms') dst src g' h'"
        using Cons.IH [of g'] Cons.prems(1) by simp
    next
      show "copyable (StructType nm (m # ms')) dst src g" by (rule Cons.prems(2))
    qed
  qed
  from this [of ms h] "4.prems" show ?case by simp
qed

lemma track1_heap_eq:
  "track1_heap =
     \<lparr>cells = [0 \<mapsto> Object (Int32V 7), 4 \<mapsto> Object (Int32V 0),
               8 \<mapsto> SequenceInstance (Some 40) 0,
               40 \<mapsto> Object (Int32V 7), 8 \<mapsto> SequenceInstance (Some 40) 1],
      blocks = [0 \<mapsto> 4, 4 \<mapsto> 36, 40 \<mapsto> 8], brk = 48\<rparr>"
  by (simp add: track_defs sample_defs)

lemma track1_copy:
  "DynamicData_copy track1 track1_heap = Inr (track2, track2_heap)"
  by (simp add: track2_def track2_heap_def track1_eval track1_heap_eq Track_def
      DynamicData_copy_def new_array_def store_def sizeof_SequenceInstance_def)

lemma track2_eval:
  "track2 = \<lparr>type' = Track, instance' = 48\<rparr>"
  "track2_pts = \<lparr>type' = SequenceType (PrimitiveType INT32) 2, instance' = 52\<rparr>"
  "cells track2_heap 52 = Some (SequenceInstance (Some 84) 1)"
  "cells track2_heap 0 = Some (Object (Int32V 7))"
  "brk track2_heap = 92"
  by (simp_all add: track2_def track2_pts_def track2_heap_def track1_eval track1_heap_eq Track_def
      DynamicData_copy_def new_array_def store_def sizeof_SequenceInstance_def op_member_def)

lemma track2_push:
  "push track2_pts 0 track2_heap = Inr (track2_pts, track2_pushed)"
  by (simp add: track2_pushed_def push_def track2_eval store_def)

text \<open>
  C4. Copy-constructing \<open>b\<close> from an owning value \<open>a\<close> succeeds; it takes a new array at
  the break of the store, so \<open>b\<close>'s buffer does not overlap \<open>a\<close>'s, and fills it by the
  descriptor's copy operation, after which \<open>b\<close> has the content of \<open>a\<close>. Whatever is then
  written through views into \<open>b\<close>'s storage (setters, pushes, assignments, in any number),
  every object that existed before the copy is left as it was, and the content of \<open>a\<close> is
  unchanged.
\<close>

theorem copy_isolation:
  assumes "owns a h" and "constructed (type' a) h (instance' a)" and "well_laid (type' a)"
    and "nothing_above h"
  shows "\<exists>b h1. DynamicData_copy a h = Inr (b, h1)
    \<and> type' b = type' a \<and> instance' b = brk h
    \<and> {instance' b ..< instance' b + memory_size (type' b)}
        \<inter> {instance' a ..< instance' a + memory_size (type' a)} = {}
    \<and> copy_instance (type' a) (instance' b) (instance' a)
          (snd (new_array (memory_size (type' a)) h)) = Inr h1
    \<and> snapshot (type' b) h1 (instance' b) = snapshot (type' a) h (instance' a)
    \<and> (\<forall>h2. mutates (instance' b) h1 h2 \<longrightarrow>
          agree_below (brk h) h h2
          \<and> snapshot (type' a) h2 (instance' a) = snapshot (type' a) h (instance' a))"
proof -
  let ?T = "type' a" and ?N = "brk h" and ?p = "instance' a"
  let ?h0 = "snd (new_array (memory_size ?T) h)"
  have h0: "cells ?h0 = cells h" "brk ?h0 = ?N + max (memory_size ?T) 1"
    by (simp_all add: new_array_def)
  from assms(1) have below: "?p + memory_size ?T \<le> ?N" and dist: "distinct (leaves ?T ?p)"
    and inbuf: "\<And>x. x \<in> set (leaves ?T ?p) \<Longrightarrow> x < ?p + memory_size ?T"
    by (auto simp: owns_def list_all_iff)
  have shift: "leaves ?T ?N = map (\<lambda>x. x + (?N - ?p)) (leaves ?T ?p)"
    using leaves_shift [of ?T ?p "?N - ?p"] below by simp
  have same: "snapshot ?T ?h0 ?p = snapshot ?T h ?p \<and> elems ?T ?h0 ?p = elems ?T h ?p"
    by (rule snapshot_same_cells) (rule h0(1))
  have "copyable ?T ?N ?p ?h0"
    unfolding copyable_def
  proof (intro conjI ballI)
    show "constructed ?T ?h0 ?p"
      using constructed_frame [of ?T ?p h ?h0] assms(2) h0(1) by simp
    show "well_laid ?T" by (rule assms(3))
    show "distinct (leaves ?T ?N)"
      unfolding shift using dist by (simp add: distinct_map inj_on_def)
  next
    fix x assume "x \<in> set (leaves ?T ?N)"
    then obtain y where y: "y \<in> set (leaves ?T ?p)" and x: "x = y + (?N - ?p)"
      unfolding shift by auto
    from inbuf [OF y] x below show "x < brk ?h0" unfolding h0(2) by linarith
  next
    fix x assume "x \<in> set (leaves ?T ?p) \<union> set (elems ?T ?h0 ?p)"
    with same have "x \<in> set (leaves ?T ?p) \<union> set (elems ?T h ?p)" by simp
    from owns_below [OF assms(1) this] have lt: "x < ?N" .
    then show "x < brk ?h0" unfolding h0(2) by simp
    show "x \<notin> set (leaves ?T ?N)"
    proof
      assume "x \<in> set (leaves ?T ?N)"
      then have "?N \<le> x" by (rule leaves_ge)
      with lt show False by simp
    qed
  qed
  from copy_instance_correct [OF this] obtain h1 where
    cp: "copy_instance ?T ?N ?p ?h0 = Inr h1" and ok: "copied ?T ?N ?p ?h0 h1"
    by blast
  define b where "b = \<lparr>type' = ?T, instance' = ?N\<rparr>"
  have b: "type' b = ?T" "instance' b = ?N" by (simp_all add: b_def)
  have dc: "DynamicData_copy a h = Inr (b, h1)"
    using cp by (simp add: DynamicData_copy_def new_array_def b_def)
  from ok same have sn: "snapshot ?T h1 ?N = snapshot ?T h ?p"
    by (simp add: copied_def)
  have k0: "kept ?N h ?h0"
    using assms(4)
    by (auto simp: kept_def agree_below_def upper_closed_def nothing_above_def new_array_def)
  have k1: "kept ?N h h1"
    using copy_instance_kept [OF cp _ k0] by simp
  have apart: "{?N ..< ?N + memory_size ?T} \<inter> {?p ..< ?p + memory_size ?T} = {}"
    using below by auto
  have iso: "agree_below ?N h h2 \<and> snapshot ?T h2 ?p = snapshot ?T h ?p"
    if "mutates ?N h1 h2" for h2
  proof -
    from mutates_kept [OF that] k1 have "kept ?N h h2" by simp
    then have ag: "agree_below ?N h h2" by (simp add: kept_def)
    have "snapshot ?T h2 ?p = snapshot ?T h ?p \<and> elems ?T h2 ?p = elems ?T h ?p"
    proof (rule snapshot_frame)
      fix x assume "x \<in> set (leaves ?T ?p) \<union> set (elems ?T h ?p)"
      with owns_below [OF assms(1)] have "x < ?N" by blast
      with ag show "cells h2 x = cells h x" by (simp add: agree_below_def)
    qed
    with ag show ?thesis by simp
  qed
  show ?thesis
  proof (intro exI conjI)
    show "DynamicData_copy a h = Inr (b, h1)" by (rule dc)
    show "type' b = ?T" by (rule b(1))
    show "instance' b = ?N" by (rule b(2))
    show "{instance' b ..< instance' b + memory_size (type' b)}
        \<inter> {?p ..< ?p + memory_size ?T} = {}"
      unfolding b by (rule apart)
    show "copy_instance ?T (instance' b) ?p ?h0 = Inr h1" unfolding b by (rule cp)
    show "snapshot (type' b) h1 (instance' b) = snapshot ?T h ?p" unfolding b by (rule sn)
    show "\<forall>h2. mutates (instance' b) h1 h2 \<longrightarrow>
          agree_below ?N h h2 \<and> snapshot ?T h2 ?p = snapshot ?T h ?p"
      unfolding b using iso by blast
  qed
qed

theorem copy_isolation_witness:
  "owns track1 track1_heap \<and> constructed Track track1_heap 4 \<and> well_laid Track
   \<and> nothing_above track1_heap
   \<and> DynamicData_copy track1 track1_heap = Inr (track2, track2_heap)
   \<and> instance' track2 = 48
   \<and> snapshot Track track2_heap 48 = snapshot Track track1_heap 4
   \<and> push track2_pts 0 track2_heap = Inr (track2_pts, track2_pushed)
   \<and> size_of track2_pts track2_pushed = Inr 2
   \<and> snapshot Track track2_pushed 4 = snapshot Track track1_heap 4
   \<and> snapshot Track track1_heap 4
       = Some (Members [Scalar (Int32V 0), Elements [Scalar (Int32V 7)]])"
proof -
  have o: "owns track1 track1_heap"
    by (simp add: owns_def track1_eval) (simp add: Track_def track1_heap_eq sizeof_SequenceInstance_def)
  have k: "constructed Track track1_heap 4"
    by (simp add: Track_def track1_heap_eq)
  have w: "well_laid Track"
    by (simp add: Track_def fits_def)
  have n: "nothing_above track1_heap"
    by (auto simp: nothing_above_def track1_heap_eq)
  have m: "mutates (instance' track2) track2_heap track2_pushed"
    by (rule mutates.by_push [OF mutates.unchanged _ track2_push]) (simp add: track2_eval)
  have "cells track2_pushed 52 = Some (SequenceInstance (Some 84) 2)"
    by (simp add: track2_pushed_def push_def track2_eval store_def)
  then have s: "size_of track2_pts track2_pushed = Inr 2"
    by (simp add: size_of_def track2_eval)
  have c: "snapshot Track track1_heap 4
       = Some (Members [Scalar (Int32V 0), Elements [Scalar (Int32V 7)]])"
    by (simp add: Track_def track1_heap_eq)
  from copy_isolation [of track1 track1_heap] o k w n track1_copy m
  have "snapshot (type' track2) track2_heap (instance' track2)
        = snapshot (type' track1) track1_heap (instance' track1)
      \<and> snapshot (type' track1) track2_pushed (instance' track1)
        = snapshot (type' track1) track1_heap (instance' track1)"
    by (auto simp: track1_eval)
  with o k w n track1_copy track2_push s c show ?thesis
    by (simp add: track1_eval track2_eval)
qed

subsection \<open>Moves\<close>

lemma moved_from_frame:
  "(\<And>x. x \<in> set (leaves T p) \<Longrightarrow> cells h' x = cells h x)
    \<Longrightarrow> moved_from T h' p = moved_from T h p"
proof (induction T h p rule: moved_from.induct)
  case (4 nm ms h p)
  have "moved_from (member_type m) h' (p + member_offset m)
      = moved_from (member_type m) h (p + member_offset m)" if "m \<in> set ms" for m
    using "4.IH" [OF that] "4.prems" that by auto
  then show ?case by (simp add: list_all_iff)
qed simp_all

lemma move_instance_Cons:
  "move_instance (StructType nm (m # ms)) dst src h =
     (case move_instance (member_type m) (dst + member_offset m) (src + member_offset m) h of
        Inl e \<Rightarrow> Inl e
      | Inr h1 \<Rightarrow> move_instance (StructType nm ms) dst src h1)"
  by (simp split: sum.splits)

lemma snapshot_Cons:
  "snapshot (StructType nm (m # ms)) h p = Some c \<longleftrightarrow>
     (\<exists>cm cs. snapshot (member_type m) h (p + member_offset m) = Some cm
        \<and> snapshot (StructType nm ms) h p = Some (Members cs) \<and> c = Members (cm # cs))"
  by (cases "snapshot (member_type m) h (p + member_offset m)") auto

lemma move_instance_struct_step:
  assumes A: "\<And>h c. snapshot (member_type m) h (src + member_offset m) = Some c
        \<Longrightarrow> movable (member_type m) (dst + member_offset m) (src + member_offset m) h
        \<Longrightarrow> \<exists>h'. move_instance (member_type m) (dst + member_offset m)
                    (src + member_offset m) h = Inr h'
              \<and> moved_ok (member_type m) (dst + member_offset m) (src + member_offset m) h h' c"
    and B: "\<And>h c. snapshot (StructType nm ms) h src = Some c
        \<Longrightarrow> movable (StructType nm ms) dst src h
        \<Longrightarrow> \<exists>h'. move_instance (StructType nm ms) dst src h = Inr h'
              \<and> moved_ok (StructType nm ms) dst src h h' c"
    and snap: "snapshot (StructType nm (m # ms)) h src = Some c"
    and mv: "movable (StructType nm (m # ms)) dst src h"
  shows "\<exists>h'. move_instance (StructType nm (m # ms)) dst src h = Inr h'
              \<and> moved_ok (StructType nm (m # ms)) dst src h h' c"
proof -
  let ?T1 = "member_type m" and ?d1 = "dst + member_offset m" and ?s1 = "src + member_offset m"
  let ?T2 = "StructType nm ms"
  let ?L1s = "set (leaves ?T1 ?s1)" and ?L1d = "set (leaves ?T1 ?d1)"
  let ?L2s = "set (leaves ?T2 src)" and ?L2d = "set (leaves ?T2 dst)"
  let ?E1 = "set (elems ?T1 h ?s1)" and ?E2 = "set (elems ?T2 h src)"
  from snap obtain cm cs where cm: "snapshot ?T1 h ?s1 = Some cm"
    and cs: "snapshot ?T2 h src = Some (Members cs)" and c: "c = Members (cm # cs)"
    unfolding snapshot_Cons by blast
  from mv have d1: "distinct (leaves ?T1 ?s1 @ leaves ?T1 ?d1)"
    and d2: "distinct (leaves ?T2 src @ leaves ?T2 dst)"
    and x12: "(?L1s \<union> ?L1d) \<inter> (?L2s \<union> ?L2d) = {}"
    and e1: "?E1 \<inter> (?L1s \<union> ?L1d \<union> ?L2s \<union> ?L2d) = {}"
    and e2: "?E2 \<inter> (?L1s \<union> ?L1d \<union> ?L2s \<union> ?L2d) = {}"
    by (auto simp: movable_def)
  have "movable ?T1 ?d1 ?s1 h"
    using d1 e1 by (auto simp: movable_def)
  from A [OF cm this] obtain h1 where
    m1: "move_instance ?T1 ?d1 ?s1 h = Inr h1" and ok1: "moved_ok ?T1 ?d1 ?s1 h h1 cm"
    by blast
  from ok1 have f1: "\<And>x. x \<notin> ?L1s \<union> ?L1d \<Longrightarrow> cells h1 x = cells h x"
    by (simp add: moved_ok_def)
  have s2: "snapshot ?T2 h1 src = snapshot ?T2 h src \<and> elems ?T2 h1 src = elems ?T2 h src"
  proof (rule snapshot_frame)
    fix x assume "x \<in> ?L2s \<union> ?E2"
    with x12 e2 have "x \<notin> ?L1s \<union> ?L1d" by blast
    then show "cells h1 x = cells h x" by (rule f1)
  qed
  have "movable ?T2 dst src h1"
    using d2 e2 s2 by (auto simp: movable_def)
  from B [of h1 "Members cs"] s2 cs this obtain h' where
    m2: "move_instance ?T2 dst src h1 = Inr h'" and ok2: "moved_ok ?T2 dst src h1 h' (Members cs)"
    by auto
  from ok2 have f2: "\<And>x. x \<notin> ?L2s \<union> ?L2d \<Longrightarrow> cells h' x = cells h1 x"
    by (simp add: moved_ok_def)
  from ok1 have el1: "elems ?T1 h1 ?d1 = elems ?T1 h ?s1" by (simp add: moved_ok_def)
  have s1: "snapshot ?T1 h' ?d1 = snapshot ?T1 h1 ?d1 \<and> elems ?T1 h' ?d1 = elems ?T1 h1 ?d1"
  proof (rule snapshot_frame)
    fix x assume "x \<in> ?L1d \<union> set (elems ?T1 h1 ?d1)"
    with el1 have "x \<in> ?L1d \<union> ?E1" by simp
    with x12 e1 have "x \<notin> ?L2s \<union> ?L2d" by blast
    then show "cells h' x = cells h1 x" by (rule f2)
  qed
  have mf1: "moved_from ?T1 h' ?s1 = moved_from ?T1 h1 ?s1"
  proof (rule moved_from_frame)
    fix x assume "x \<in> ?L1s"
    with x12 have "x \<notin> ?L2s \<union> ?L2d" by blast
    then show "cells h' x = cells h1 x" by (rule f2)
  qed
  have "move_instance (StructType nm (m # ms)) dst src h = Inr h'"
    unfolding move_instance_Cons using m1 m2 by simp
  moreover have "snapshot (StructType nm (m # ms)) h' dst = Some c"
    unfolding snapshot_Cons using s1 ok1 ok2 c by (simp add: moved_ok_def)
  moreover have "elems (StructType nm (m # ms)) h' dst = elems (StructType nm (m # ms)) h src"
    using s1 s2 el1 ok2 by (simp add: moved_ok_def)
  moreover have "moved_from (StructType nm (m # ms)) h' src"
    using mf1 ok1 ok2 by (simp add: moved_ok_def)
  moreover have "cells h' x = cells h x"
    if "x \<notin> set (leaves (StructType nm (m # ms)) src) \<union> set (leaves (StructType nm (m # ms)) dst)"
    for x
  proof -
    from that have "x \<notin> ?L1s \<union> ?L1d" "x \<notin> ?L2s \<union> ?L2d" by auto
    with f1 f2 show ?thesis by simp
  qed
  moreover have "blocks h' = blocks h" "brk h' = brk h"
    using ok1 ok2 by (simp_all add: moved_ok_def)
  ultimately show ?thesis
    unfolding moved_ok_def by blast
qed

lemma move_instance_sequence:
  assumes snap: "snapshot (SequenceType t b) h src = Some c"
    and mv: "movable (SequenceType t b) dst src h"
  shows "\<exists>h'. move_instance (SequenceType t b) dst src h = Inr h'
              \<and> moved_ok (SequenceType t b) dst src h h' c"
proof -
  from snap obtain ob n where hdr: "cells h src = Some (SequenceInstance ob n)"
    by (auto split: option.splits cell.splits)
  from mv have ne: "src \<noteq> dst"
    and el: "src \<notin> set (elems (SequenceType t b) h src)" "dst \<notin> set (elems (SequenceType t b) h src)"
    by (auto simp: movable_def)
  define h' where "h' = store src (SequenceInstance None 0) (store dst (SequenceInstance ob n) h)"
  have mi: "move_instance (SequenceType t b) dst src h = Inr h'"
    using hdr by (simp add: h'_def)
  have cd: "cells h' dst = Some (SequenceInstance ob n)"
    and cs: "cells h' src = Some (SequenceInstance None 0)"
    and co: "\<And>x. x \<noteq> src \<Longrightarrow> x \<noteq> dst \<Longrightarrow> cells h' x = cells h x"
    and bb: "blocks h' = blocks h" "brk h' = brk h"
    using ne by (simp_all add: store_def h'_def)
  have both: "snapshot (SequenceType t b) h' dst = snapshot (SequenceType t b) h src
      \<and> elems (SequenceType t b) h' dst = elems (SequenceType t b) h src"
  proof (cases ob)
    case None
    with hdr cd show ?thesis by simp
  next
    case (Some blk)
    have each: "snapshot t h' (blk + i * memory_size t) = snapshot t h (blk + i * memory_size t)
        \<and> elems t h' (blk + i * memory_size t) = elems t h (blk + i * memory_size t)"
      if "i \<in> set [0..<n]" for i
    proof (rule snapshot_frame)
      fix x assume "x \<in> set (leaves t (blk + i * memory_size t))
          \<union> set (elems t h (blk + i * memory_size t))"
      with that hdr Some have "x \<in> set (elems (SequenceType t b) h src)"
        by auto
      with el have "x \<noteq> src" "x \<noteq> dst" by auto
      then show "cells h' x = cells h x" by (rule co)
    qed
    have m1: "map (\<lambda>i. snapshot t h' (blk + i * memory_size t)) [0..<n]
        = map (\<lambda>i. snapshot t h (blk + i * memory_size t)) [0..<n]"
      by (rule map_cong) (simp_all add: each)
    have m2: "map (\<lambda>i. leaves t (blk + i * memory_size t)
            @ elems t h' (blk + i * memory_size t)) [0..<n]
        = map (\<lambda>i. leaves t (blk + i * memory_size t)
            @ elems t h (blk + i * memory_size t)) [0..<n]"
      by (rule map_cong) (simp_all add: each)
    show ?thesis
      using hdr cd Some by (simp add: m1 m2)
  qed
  have "moved_ok (SequenceType t b) dst src h h' c"
    unfolding moved_ok_def
    using both snap cs co bb by simp
  with mi show ?thesis by blast
qed

lemma move_instance_correct:
  "snapshot T h src = Some c \<Longrightarrow> movable T dst src h
    \<Longrightarrow> \<exists>h'. move_instance T dst src h = Inr h' \<and> moved_ok T dst src h h' c"
proof (induction T dst src h arbitrary: c rule: move_instance.induct)
  case (1 a dst src h)
  from "1.prems"(1) obtain v where v: "cells h src = Some (Object v)" "ctype_of v = Arith a"
    "c = Scalar v"
    by (auto split: option.splits cell.splits if_splits)
  from "1.prems"(2) have ne: "src \<noteq> dst" by (simp add: movable_def)
  have "move_instance (PrimitiveType a) dst src h = Inr (store dst (Object v) h)"
    using v by simp
  moreover have "moved_ok (PrimitiveType a) dst src h (store dst (Object v) h) c"
    using v ne by (simp add: moved_ok_def store_def)
  ultimately show ?case by blast
next
  case (2 dst src h)
  from "2.prems"(1) obtain s where s: "cells h src = Some (Object (StringV s))"
    "c = Scalar (StringV s)"
    by (auto split: option.splits cell.splits scalar.splits)
  from "2.prems"(2) have ne: "src \<noteq> dst" by (simp add: movable_def)
  let ?h' = "store src (Object (StringV [])) (store dst (Object (StringV s)) h)"
  have "move_instance StringType dst src h = Inr ?h'"
    using s by simp
  moreover have "moved_ok StringType dst src h ?h' c"
    using s ne by (simp add: moved_ok_def store_def)
  ultimately show ?case by blast
next
  case (3 t b dst src h)
  then show ?case by (rule move_instance_sequence)
next
  case (4 nm ms dst src h)
  have "\<exists>h'. move_instance (StructType nm ms') dst src g = Inr h'
          \<and> moved_ok (StructType nm ms') dst src g h' d"
    if "set ms' \<subseteq> set ms" "snapshot (StructType nm ms') g src = Some d"
      "movable (StructType nm ms') dst src g" for ms' g d
    using that
  proof (induction ms' arbitrary: g d)
    case Nil
    then show ?case by (auto simp: moved_ok_def)
  next
    case (Cons m ms')
    show ?case
    proof (rule move_instance_struct_step)
      fix g' d'
      assume "snapshot (member_type m) g' (src + member_offset m) = Some d'"
        "movable (member_type m) (dst + member_offset m) (src + member_offset m) g'"
      then show "\<exists>h'. move_instance (member_type m) (dst + member_offset m)
                    (src + member_offset m) g' = Inr h'
              \<and> moved_ok (member_type m) (dst + member_offset m) (src + member_offset m) g' h' d'"
        using "4.IH" [of m g' d'] Cons.prems(1) by simp
    next
      fix g' d'
      assume "snapshot (StructType nm ms') g' src = Some d'"
        "movable (StructType nm ms') dst src g'"
      then show "\<exists>h'. move_instance (StructType nm ms') dst src g' = Inr h'
              \<and> moved_ok (StructType nm ms') dst src g' h' d'"
        using Cons.IH [of g' d'] Cons.prems(1) by simp
    next
      show "snapshot (StructType nm (m # ms')) g src = Some d" by (rule Cons.prems(2))
    next
      show "movable (StructType nm (m # ms')) dst src g" by (rule Cons.prems(3))
    qed
  qed
  from this [of ms h c] "4.prems" show ?case by simp
qed

lemma destroy_instance_Cons:
  "destroy_instance (StructType nm (m # ms)) p h =
     (case destroy_instance (member_type m) (p + member_offset m) h of
        Inl e \<Rightarrow> Inl e
      | Inr h1 \<Rightarrow> destroy_instance (StructType nm ms) p h1)"
  by (simp split: sum.splits)

lemma destroy_moved_from:
  "moved_from T h p \<Longrightarrow> distinct (leaves T p)
    \<Longrightarrow> \<exists>h'. destroy_instance T p h = Inr h' \<and> blocks h' = blocks h \<and> brk h' = brk h
          \<and> (\<forall>x. x \<notin> set (leaves T p) \<longrightarrow> cells h' x = cells h x)"
proof (induction T p h rule: destroy_instance.induct)
  case (1 a p h)
  then show ?case by simp
next
  case (2 p h)
  then show ?case by (simp add: erase_def)
next
  case (3 t b p h)
  then show ?case by (simp add: erase_def)
next
  case (4 nm ms p h)
  have "\<exists>h'. destroy_instance (StructType nm ms') p g = Inr h' \<and> blocks h' = blocks g
          \<and> brk h' = brk g
          \<and> (\<forall>x. x \<notin> set (leaves (StructType nm ms') p) \<longrightarrow> cells h' x = cells g x)"
    if "set ms' \<subseteq> set ms" "moved_from (StructType nm ms') g p"
      "distinct (leaves (StructType nm ms') p)" for ms' g
    using that
  proof (induction ms' arbitrary: g)
    case Nil
    then show ?case by simp
  next
    case (Cons m ms')
    let ?L1 = "set (leaves (member_type m) (p + member_offset m))"
    let ?L2 = "set (leaves (StructType nm ms') p)"
    from Cons.prems(3) have d1: "distinct (leaves (member_type m) (p + member_offset m))"
      and d2: "distinct (leaves (StructType nm ms') p)" and x12: "?L1 \<inter> ?L2 = {}"
      by auto
    from Cons.prems(2) have mf1: "moved_from (member_type m) g (p + member_offset m)"
      and mf2: "moved_from (StructType nm ms') g p"
      by simp_all
    from "4.IH" [of m g] Cons.prems(1) mf1 d1 obtain h1 where
      h1: "destroy_instance (member_type m) (p + member_offset m) g = Inr h1"
        "blocks h1 = blocks g" "brk h1 = brk g"
        "\<And>x. x \<notin> ?L1 \<Longrightarrow> cells h1 x = cells g x"
      by auto
    have "moved_from (StructType nm ms') h1 p = moved_from (StructType nm ms') g p"
    proof (rule moved_from_frame)
      fix x assume "x \<in> ?L2"
      with x12 have "x \<notin> ?L1" by blast
      then show "cells h1 x = cells g x" by (rule h1(4))
    qed
    with mf2 have "moved_from (StructType nm ms') h1 p" by simp
    from Cons.IH [OF _ this d2] Cons.prems(1) obtain h' where
      h': "destroy_instance (StructType nm ms') p h1 = Inr h'"
        "blocks h' = blocks h1" "brk h' = brk h1"
        "\<And>x. x \<notin> ?L2 \<Longrightarrow> cells h' x = cells h1 x"
      by auto
    have "destroy_instance (StructType nm (m # ms')) p g = Inr h'"
      unfolding destroy_instance_Cons using h1(1) h'(1) by simp
    moreover have "cells h' x = cells g x"
      if "x \<notin> set (leaves (StructType nm (m # ms')) p)" for x
    proof -
      from that have "x \<notin> ?L1" "x \<notin> ?L2" by auto
      with h1(4) h'(4) show ?thesis by simp
    qed
    ultimately show ?case using h1(2,3) h'(2,3) by auto
  qed
  from this [of ms h] "4.prems" show ?case by simp
qed

text \<open>
  C5. Move-constructing \<open>b\<close> from an owning value \<open>a\<close> succeeds: \<open>b\<close> gets a new array at
  the break of the store, and after the descriptor's move operation \<open>b\<close> holds the content
  \<open>a\<close> had. The destructor of \<open>a\<close> then succeeds; the only block it releases is \<open>a\<close>'s own
  buffer, \<open>b\<close>'s buffer stays live, and \<open>b\<close> still holds the content \<open>a\<close> had.
\<close>

theorem move_independence:
  assumes "owns a h"
  shows "\<exists>b h1 h2. DynamicData_move a h = Inr (b, h1)
    \<and> type' b = type' a \<and> instance' b = brk h
    \<and> snapshot (type' a) h1 (instance' b) = snapshot (type' a) h (instance' a)
    \<and> DynamicData_destroy a h1 = Inr h2
    \<and> blocks h2 = (blocks h1)(instance' a := None)
    \<and> blocks h2 (instance' b) = Some (memory_size (type' a))
    \<and> snapshot (type' a) h2 (instance' b) = snapshot (type' a) h (instance' a)"
proof -
  let ?T = "type' a" and ?p = "instance' a" and ?N = "brk h"
  let ?sz = "memory_size (type' a)"
  define h0 where "h0 = snd (new_array ?sz h)"
  have na: "new_array ?sz h = (?N, h0)"
    and h0: "cells h0 = cells h" "blocks h0 = (blocks h)(?N \<mapsto> ?sz)"
    by (simp_all add: h0_def new_array_def)
  from assms obtain c where c: "snapshot ?T h ?p = Some c"
    by (auto simp: owns_def)
  from assms have blk: "blocks h ?p = Some ?sz" and below: "?p + ?sz \<le> ?N"
    and pN: "?p \<noteq> ?N"
    and dl: "distinct (leaves ?T ?p)"
    and inb: "\<And>x. x \<in> set (leaves ?T ?p) \<Longrightarrow> x < ?p + ?sz"
    and el: "\<And>x. x \<in> set (elems ?T h ?p) \<Longrightarrow> x < ?N \<and> \<not> (?p \<le> x \<and> x < ?p + ?sz)"
    by (auto simp: owns_def list_all_iff)
  have shift: "leaves ?T ?N = map (\<lambda>x. x + (?N - ?p)) (leaves ?T ?p)"
    using leaves_shift [of ?T ?p "?N - ?p"] below by simp
  have dN: "distinct (leaves ?T ?N)"
    unfolding shift using dl by (simp add: distinct_map inj_on_def)
  have geN: "\<And>x. x \<in> set (leaves ?T ?N) \<Longrightarrow> ?N \<le> x"
    by (rule leaves_ge)
  have gep: "\<And>x. x \<in> set (leaves ?T ?p) \<Longrightarrow> ?p \<le> x"
    by (rule leaves_ge)
  have s0: "snapshot ?T h0 ?p = snapshot ?T h ?p \<and> elems ?T h0 ?p = elems ?T h ?p"
    by (rule snapshot_same_cells) (rule h0(1))
  have lp: "\<not> (?p \<le> x \<and> x < ?p + ?sz)" if "x \<in> set (leaves ?T ?N)" for x
    using geN [OF that] below by simp
  have ll: "set (leaves ?T ?p) \<inter> set (leaves ?T ?N) = {}"
  proof (rule ccontr)
    assume "set (leaves ?T ?p) \<inter> set (leaves ?T ?N) \<noteq> {}"
    then obtain x where "x \<in> set (leaves ?T ?p)" "x \<in> set (leaves ?T ?N)" by blast
    with inb [of x] gep [of x] lp [of x] show False by simp
  qed
  have le: "set (elems ?T h ?p) \<inter> (set (leaves ?T ?p) \<union> set (leaves ?T ?N)) = {}"
  proof (rule ccontr)
    assume "set (elems ?T h ?p) \<inter> (set (leaves ?T ?p) \<union> set (leaves ?T ?N)) \<noteq> {}"
    then obtain x where x: "x \<in> set (elems ?T h ?p)"
      "x \<in> set (leaves ?T ?p) \<or> x \<in> set (leaves ?T ?N)" by blast
    from x(2) show False
    proof
      assume "x \<in> set (leaves ?T ?p)"
      with inb [of x] gep [of x] el [OF x(1)] show False by simp
    next
      assume "x \<in> set (leaves ?T ?N)"
      with geN [of x] el [OF x(1)] show False by simp
    qed
  qed
  have "movable ?T ?N ?p h0"
    unfolding movable_def using dl dN ll le s0 by simp
  with move_instance_correct [of ?T h0 ?p c ?N] s0 c obtain h1 where
    mv: "move_instance ?T ?N ?p h0 = Inr h1" and ok: "moved_ok ?T ?N ?p h0 h1 c"
    by auto
  let ?b = "\<lparr>type' = ?T, instance' = ?N\<rparr>"
  have Mv: "DynamicData_move a h = Inr (?b, h1)"
    using na mv by (simp add: DynamicData_move_def)
  from ok have sb: "snapshot ?T h1 ?N = Some c" and eb: "elems ?T h1 ?N = elems ?T h ?p"
    and mf: "moved_from ?T h1 ?p" and b1: "blocks h1 = blocks h0"
    using s0 by (simp_all add: moved_ok_def)
  from destroy_moved_from [OF mf dl] obtain h1' where
    ds: "destroy_instance ?T ?p h1 = Inr h1'" and b1': "blocks h1' = blocks h1"
    and f1': "\<And>x. x \<notin> set (leaves ?T ?p) \<Longrightarrow> cells h1' x = cells h1 x"
    by auto
  define h2 where "h2 = h1'\<lparr>cells := (\<lambda>x. if ?p \<le> x \<and> x < ?p + ?sz then None else cells h1' x),
      blocks := (blocks h1')(?p := None)\<rparr>"
  have da: "delete_array ?p h1' = Inr h2"
    using b1' b1 h0(2) blk pN by (simp add: delete_array_def h2_def)
  have Ds: "DynamicData_destroy a h1 = Inr h2"
    using ds da by (simp add: DynamicData_destroy_def)
  have bl2: "blocks h2 = (blocks h1)(?p := None)"
    using b1' by (simp add: h2_def)
  have bN: "blocks h2 ?N = Some ?sz"
    using bl2 b1 h0(2) pN by simp
  have s2: "snapshot ?T h2 ?N = snapshot ?T h1 ?N \<and> elems ?T h2 ?N = elems ?T h1 ?N"
  proof (rule snapshot_frame)
    fix x assume "x \<in> set (leaves ?T ?N) \<union> set (elems ?T h1 ?N)"
    then have "x \<in> set (leaves ?T ?N) \<or> x \<in> set (elems ?T h ?p)"
      using eb by simp
    then have out: "\<not> (?p \<le> x \<and> x < ?p + ?sz)"
      using lp [of x] el [of x] by blast
    have notin: "x \<notin> set (leaves ?T ?p)"
    proof
      assume "x \<in> set (leaves ?T ?p)"
      with inb [of x] gep [of x] out show False by simp
    qed
    from out have "cells h2 x = cells h1' x" by (auto simp: h2_def)
    with f1' [OF notin] show "cells h2 x = cells h1 x" by simp
  qed
  from Mv sb c Ds bl2 bN s2 show ?thesis
    by (intro exI [of _ ?b] exI [of _ h1] exI [of _ h2]) simp
qed

theorem move_independence_witness:
  "owns track1 track1_heap
   \<and> (\<exists>b h1 h2. DynamicData_move track1 track1_heap = Inr (b, h1)
        \<and> instance' b = 48
        \<and> snapshot Track h1 48 = Some (Members [Scalar (Int32V 0), Elements [Scalar (Int32V 7)]])
        \<and> DynamicData_destroy track1 h1 = Inr h2
        \<and> blocks h2 4 = None \<and> blocks h2 40 = Some 8 \<and> blocks h2 48 = Some 36
        \<and> snapshot Track h2 48
            = Some (Members [Scalar (Int32V 0), Elements [Scalar (Int32V 7)]]))"
proof -
  have o: "owns track1 track1_heap"
    by (simp add: owns_def track1_eval)
       (simp add: Track_def track1_heap_eq sizeof_SequenceInstance_def)
  have c: "snapshot Track track1_heap 4
       = Some (Members [Scalar (Int32V 0), Elements [Scalar (Int32V 7)]])"
    by (simp add: Track_def track1_heap_eq)
  have sz: "memory_size Track = 36" "brk track1_heap = 48"
    by (simp_all add: Track_def sizeof_SequenceInstance_def track1_heap_eq)
  from move_independence [OF o] obtain b h1 h2 where
    r: "DynamicData_move track1 track1_heap = Inr (b, h1)"
      "instance' b = brk track1_heap"
      "snapshot (type' track1) h1 (instance' b)
         = snapshot (type' track1) track1_heap (instance' track1)"
      "DynamicData_destroy track1 h1 = Inr h2"
      "blocks h2 = (blocks h1)(instance' track1 := None)"
      "blocks h2 (instance' b) = Some (memory_size (type' track1))"
      "snapshot (type' track1) h2 (instance' b)
         = snapshot (type' track1) track1_heap (instance' track1)"
    by blast
  have b1: "blocks h1 40 = Some 8"
    using r(1)
    by (auto simp: DynamicData_move_def new_array_def track1_eval track1_heap_eq Track_def
        store_def split: sum.splits)
  from r c sz b1 have "DynamicData_move track1 track1_heap = Inr (b, h1)
        \<and> instance' b = 48
        \<and> snapshot Track h1 48 = Some (Members [Scalar (Int32V 0), Elements [Scalar (Int32V 7)]])
        \<and> DynamicData_destroy track1 h1 = Inr h2
        \<and> blocks h2 4 = None \<and> blocks h2 40 = Some 8 \<and> blocks h2 48 = Some 36
        \<and> snapshot Track h2 48
            = Some (Members [Scalar (Int32V 0), Elements [Scalar (Int32V 7)]])"
    by (simp add: track1_eval)
  with o show ?thesis by blast
qed

end
